theory Spec2Isabelle
  imports Main "HOL-Library.Word" "HOL-Library.AList"
begin

unbundle bit_operations_syntax

section \<open>Data model\<close>

text \<open>
  A shallow embedding of \<^verbatim>\<open>kindle_image_downloader.py\<close>.

  Python \<^verbatim>\<open>str\<close> values are modelled as \<^typ>\<open>string\<close>, one \<^typ>\<open>char\<close> per code point
  (code points below 256); \<^verbatim>\<open>bytes\<close> values are lists of 8-bit words.

  Exceptions are values. The capture loop's \<^verbatim>\<open>except Exception\<close> catches instances of
  \<^verbatim>\<open>Exception\<close> only, so the model keeps the two classes of Python exceptions apart:
  \<open>Exc\<close> is an instance of \<^verbatim>\<open>Exception\<close>, \<open>BaseExc\<close> is a \<^verbatim>\<open>BaseException\<close> that is not
  one (\<^verbatim>\<open>KeyboardInterrupt\<close>, \<^verbatim>\<open>asyncio.CancelledError\<close>). The string is the class name.
\<close>

type_synonym byte = "8 word"
type_synonym bytes = "byte list"

datatype exc = Exc string | BaseExc string

text \<open>
  The functions of the Python standard library that the program calls and that are not
  part of the repository are parameters of the model: the SHA-256 compression of a byte
  string to 256 bits (\<^verbatim>\<open>hashlib.sha256\<close>), the media-type table
  (\<^verbatim>\<open>mimetypes.guess_extension\<close>, \<open>None\<close> for an unknown type) and
  \<^verbatim>\<open>pathlib.Path(url).suffix\<close>. Every theorem holds for all of their implementations.
\<close>

record lib =
  sha256 :: "bytes \<Rightarrow> 256 word"
  mime_guess_extension :: "string \<Rightarrow> string option"
  path_suffix :: "string \<Rightarrow> string"

text \<open>A file is addressed by its directory and its name inside the directory.\<close>

type_synonym path = "string \<times> string"
type_synonym files = "path \<rightharpoonup> bytes"

text \<open>
  What the disk does with one write (\<^verbatim>\<open>write_bytes\<close>, \<^verbatim>\<open>write_text\<close>): it stores the
  data, or it raises before the file is touched (\<open>Refused\<close>: no permission, name too
  long), or it raises after part of the data has reached the file (\<open>Torn\<close>, with what the
  file holds afterwards: disk full).
\<close>

datatype disk_reply = Stored | Refused exc | Torn exc bytes

text \<open>
  A network response as \<^verbatim>\<open>save_response_images\<close> reads it: the resource type of its
  request, its headers, its URL, and the outcome of \<^verbatim>\<open>await response.body()\<close>.
\<close>

record response =
  resource_type :: string
  headers :: "string \<rightharpoonup> string"
  url :: string
  body :: "exc + bytes"

text \<open>One run of the interceptor task: the response and the disk's reply to its write.\<close>

record arrival =
  resp :: response
  disk :: disk_reply

text \<open>The Saved Image Hash Set and the image directory.\<close>

record interceptor =
  saved_hashes :: "string set"
  image_files :: files

text \<open>How one interceptor task ends.\<close>

datatype outcome =
    Not_image_request
  | Not_image_type
  | Body_raised exc
  | Empty_body
  | Duplicate
  | Saved string bytes
  | Write_raised exc

section \<open>Strings and digests\<close>

text \<open>\<^verbatim>\<open>s.startswith(p)\<close>.\<close>

definition startswith :: "string \<Rightarrow> string \<Rightarrow> bool" where
  "startswith s p = (take (length p) s = p)"

text \<open>\<^verbatim>\<open>s.split(sep)\<close> for a separator of one character: never the empty list.\<close>

fun split_on :: "char \<Rightarrow> string \<Rightarrow> string list" where
  "split_on sep [] = [[]]"
| "split_on sep (c # cs) =
     (if c = sep then [] # split_on sep cs
      else (case split_on sep cs of
              [] \<Rightarrow> [[c]]
            | w # ws \<Rightarrow> (c # w) # ws))"

text \<open>
  \<^verbatim>\<open>s.strip()\<close>: the characters Python's \<^verbatim>\<open>str.isspace\<close> accepts below code point 256
  are removed from both ends.
\<close>

definition is_space :: "char \<Rightarrow> bool" where
  "is_space c = (let n = (of_char c :: nat) in
     (9 \<le> n \<and> n \<le> 13) \<or> (28 \<le> n \<and> n \<le> 32) \<or> n = 133 \<or> n = 160)"

definition strip :: "string \<Rightarrow> string" where
  "strip s = rev (dropWhile is_space (rev (dropWhile is_space s)))"

text \<open>
  \<^verbatim>\<open>s.replace(old, new)\<close>: the occurrences of \<open>old\<close> are replaced from the left, without
  overlap; an empty \<open>old\<close> matches before every character and at the end.
\<close>

function replace :: "string \<Rightarrow> string \<Rightarrow> string \<Rightarrow> string" where
  "replace old new s =
     (if old = [] then new @ concat (map (\<lambda>c. c # new) s)
      else if s = [] then []
      else if take (length old) s = old then new @ replace old new (drop (length old) s)
      else hd s # replace old new (tl s))"
  by pat_completeness auto
termination
  by (relation "measure (\<lambda>(old, new, s). length s)") (auto simp: neq_Nil_conv)

declare replace.simps [simp del]

text \<open>\<^verbatim>\<open>s.encode("utf-8")\<close> for code points below 256: one byte below 128, two above.\<close>

definition encode_char :: "char \<Rightarrow> bytes" where
  "encode_char c = (let n = (of_char c :: nat) in
     if n < 128 then [of_nat n]
     else [of_nat (192 + n div 64), of_nat (128 + n mod 64)])"

definition encode_utf8 :: "string \<Rightarrow> bytes" where
  "encode_utf8 s = concat (map encode_char s)"

definition digit_char :: "nat \<Rightarrow> char" where
  "digit_char n = ''0123456789abcdef'' ! (n mod 16)"

text \<open>\<^verbatim>\<open>hexdigest()\<close>: the 64 lower-case hexadecimal digits of the 256 bits, highest first.\<close>

definition hexdigest :: "256 word \<Rightarrow> string" where
  "hexdigest w = map (\<lambda>i. digit_char (unat (drop_bit (4 * i) w AND 15))) (rev [0..<64])"

text \<open>\<^verbatim>\<open>f"{i:04d}"\<close>: decimal, padded with zeros to four characters, the sign included.\<close>

fun decimal :: "nat \<Rightarrow> string" where
  "decimal n = (if n < 10 then [digit_char n] else decimal (n div 10) @ [digit_char (n mod 10)])"

declare decimal.simps [simp del]

definition format_04d :: "int \<Rightarrow> string" where
  "format_04d i =
     (if i < 0
      then CHR ''-'' # replicate (3 - length (decimal (nat (- i)))) CHR ''0'' @ decimal (nat (- i))
      else replicate (4 - length (decimal (nat i))) CHR ''0'' @ decimal (nat i))"

section \<open>The image interceptor\<close>

text \<open>
  \<^verbatim>\<open>
  def guess_extension(content_type: str, url: str) -> str:
      if content_type:
          extension = mimetypes.guess_extension(content_type.split(";")[0].strip())
          if extension:
              return extension
      suffix = Path(url).suffix
      return suffix if suffix else ".img"
  \<close>
  \<open>from_content_type\<close> is the first \<^verbatim>\<open>if\<close>: the extension it returns, or \<open>None\<close> when
  control falls through to the suffix. \<^verbatim>\<open>split\<close> never returns an empty list, so its
  first element exists.
\<close>

definition from_content_type :: "lib \<Rightarrow> string \<Rightarrow> string option" where
  "from_content_type L content_type =
     (if content_type \<noteq> []
      then (case mime_guess_extension L (strip (hd (split_on CHR '';'' content_type))) of
              None \<Rightarrow> None
            | Some extension \<Rightarrow> if extension \<noteq> [] then Some extension else None)
      else None)"

definition guess_extension :: "lib \<Rightarrow> string \<Rightarrow> string \<Rightarrow> string" where
  "guess_extension L content_type url' =
     (case from_content_type L content_type of
        Some extension \<Rightarrow> extension
      | None \<Rightarrow> (let suffix = path_suffix L url' in if suffix \<noteq> [] then suffix else ''.img''))"

text \<open>\<^verbatim>\<open>path.write_bytes(data)\<close> under the disk's reply: the files afterwards, and what was raised.\<close>

definition write_bytes :: "disk_reply \<Rightarrow> files \<Rightarrow> path \<Rightarrow> bytes \<Rightarrow> files \<times> exc option" where
  "write_bytes reply fs p data =
     (case reply of
        Stored \<Rightarrow> (fs(p \<mapsto> data), None)
      | Refused e \<Rightarrow> (fs, Some e)
      | Torn e part \<Rightarrow> (fs(p \<mapsto> part), Some e))"

text \<open>
  \<^verbatim>\<open>
  async def save_response_images(response, image_dir, saved_hashes) -> None:
      request = response.request
      if request.resource_type != "image":
          return
      content_type = response.headers.get("content-type", "")
      if not content_type.startswith("image/"):
          return
      body = await response.body()
      if not body:
          return
      digest = hashlib.sha256(body).hexdigest()
      if digest in saved_hashes:
          return
      saved_hashes.add(digest)
      extension = guess_extension(content_type, response.url)
      filename = f"{digest[:16]}{extension}"
      (image_dir / filename).write_bytes(body)
  \<close>
  The task gives up control at \<^verbatim>\<open>await response.body()\<close> only, and reads no shared state
  before it: on the single event loop the tasks act on the hash set and the disk one after
  the other, in the order in which their bodies arrive.
\<close>

definition save_response_images ::
  "lib \<Rightarrow> arrival \<Rightarrow> string \<Rightarrow> interceptor \<Rightarrow> outcome \<times> interceptor" where
  "save_response_images L a image_dir st =
     (if resource_type (resp a) \<noteq> ''image'' then (Not_image_request, st)
      else
        let content_type = (case headers (resp a) ''content-type'' of Some v \<Rightarrow> v | None \<Rightarrow> [])
        in
        if \<not> startswith content_type ''image/'' then (Not_image_type, st)
        else
          (case body (resp a) of
             Inl e \<Rightarrow> (Body_raised e, st)
           | Inr b \<Rightarrow>
               if b = [] then (Empty_body, st)
               else
                 let digest = hexdigest (sha256 L b) in
                 if digest \<in> saved_hashes st then (Duplicate, st)
                 else
                   let st1 = st\<lparr>saved_hashes := insert digest (saved_hashes st)\<rparr>;
                       extension = guess_extension L content_type (url (resp a));
                       filename = take 16 digest @ extension
                   in
                   (case write_bytes (disk a) (image_files st1) (image_dir, filename) b of
                      (fs, None) \<Rightarrow> (Saved filename b, st1\<lparr>image_files := fs\<rparr>)
                    | (fs, Some e) \<Rightarrow> (Write_raised e, st1\<lparr>image_files := fs\<rparr>))))"

text \<open>The tasks of a run, in the order of their arrivals: their outcomes and the final state.\<close>

fun deliver ::
  "lib \<Rightarrow> string \<Rightarrow> arrival list \<Rightarrow> interceptor \<Rightarrow> outcome list \<times> interceptor" where
  "deliver L image_dir [] st = ([], st)"
| "deliver L image_dir (a # as) st =
     (case save_response_images L a image_dir st of
        (out, st1) \<Rightarrow>
          (case deliver L image_dir as st1 of
             (outs, st2) \<Rightarrow> (out # outs, st2)))"

text \<open>The image files the tasks wrote, by name and content, oldest first.\<close>

fun written :: "outcome list \<Rightarrow> (string \<times> bytes) list" where
  "written [] = []"
| "written (Saved filename b # outs) = (filename, b) # written outs"
| "written (out # outs) = written outs"

text \<open>The files among them whose content has the digest \<open>d\<close>.\<close>

definition written_with :: "lib \<Rightarrow> string \<Rightarrow> outcome list \<Rightarrow> (string \<times> bytes) list" where
  "written_with L d outs = filter (\<lambda>w. hexdigest (sha256 L (snd w)) = d) (written outs)"

text \<open>A response that passes both filters of the interceptor with the body \<open>b\<close>.\<close>

definition image_response :: "response \<Rightarrow> bytes \<Rightarrow> bool" where
  "image_response r b =
     (resource_type r = ''image''
      \<and> startswith (case headers r ''content-type'' of Some v \<Rightarrow> v | None \<Rightarrow> []) ''image/''
      \<and> body r = Inr b)"

section \<open>The capture loop\<close>

text \<open>
  A frame of the page as the loop reads it: its URL, its name, and the outcome of
  \<^verbatim>\<open>await frame.content()\<close>.
\<close>

record frame =
  frame_url :: string
  frame_name :: string
  frame_content :: "exc + string"

text \<open>
  What the browser and the disk do during one iteration: the frames of the page, the
  disk's reply to each write of a markup file, and what \<^verbatim>\<open>page.keyboard.press\<close> and
  \<^verbatim>\<open>page.wait_for_timeout\<close> raise, if anything.
\<close>

record tick =
  frames :: "frame list"
  html_disk :: "path \<Rightarrow> disk_reply"
  keyboard :: "exc option"
  timer :: "exc option"

text \<open>The command-line arguments the loop reads.\<close>

record args =
  max_pages :: int
  stop_unchanged :: int

text \<open>The loop's interactions with the browser and the console, in the order they are issued.\<close>

datatype command = Read_frames | Press string | Wait_for_timeout | Print string

record capture =
  unchanged_count :: int
  last_hash :: string
  html_files :: files
  commands :: "command list"

datatype step = Continue | Break | Raise exc

datatype ending = Exhausted | Stopped | Raised exc

text \<open>
  \<^verbatim>\<open>
  frame_contents = {}
  for frame in page.frames:
      try:
          frame_contents[frame.url or f"frame_{frame.name}"] = await frame.content()
      except Exception:
          continue
  \<close>
  A Python \<^verbatim>\<open>dict\<close> keeps its keys in the order of their first insertion, and an
  assignment to a key it has replaces the value where the key stands: the association
  list with \<^const>\<open>AList.update\<close>. The result is the dictionary built, and the exception
  that left the loop, if one did.
\<close>

definition frame_key :: "frame \<Rightarrow> string" where
  "frame_key f = (if frame_url f \<noteq> [] then frame_url f else ''frame_'' @ frame_name f)"

fun collect_frames ::
  "frame list \<Rightarrow> (string \<times> string) list \<Rightarrow> (string \<times> string) list \<times> exc option" where
  "collect_frames [] frame_contents = (frame_contents, None)"
| "collect_frames (f # fs) frame_contents =
     (case frame_content f of
        Inr html \<Rightarrow> collect_frames fs (AList.update (frame_key f) html frame_contents)
      | Inl (Exc m) \<Rightarrow> collect_frames fs frame_contents
      | Inl (BaseExc m) \<Rightarrow> (frame_contents, Some (BaseExc m)))"

text \<open>
  \<^verbatim>\<open>
  async def save_frame_html(page_index, html_dir, contents) -> str:
      combined = hashlib.sha256()
      for name, html in contents.items():
          safe_name = name.replace("://", "_").replace("/", "_")
          file_path = html_dir / f"page_{page_index:04d}_{safe_name}.html"
          file_path.write_text(html, encoding="utf-8")
          combined.update(html.encode("utf-8"))
      return combined.hexdigest()
  \<close>
  The hash object is the byte string fed to it so far: \<^verbatim>\<open>update\<close> appends, and
  \<^verbatim>\<open>hexdigest\<close> is the digest of the whole.
\<close>

definition html_path :: "int \<Rightarrow> string \<Rightarrow> string \<Rightarrow> path" where
  "html_path page_index html_dir name =
     (let safe_name = replace ''/'' ''_'' (replace ''://'' ''_'' name)
      in (html_dir, ''page_'' @ format_04d page_index @ ''_'' @ safe_name @ ''.html''))"

fun save_frames ::
  "int \<Rightarrow> string \<Rightarrow> (path \<Rightarrow> disk_reply) \<Rightarrow> (string \<times> string) list \<Rightarrow> files \<Rightarrow> bytes
     \<Rightarrow> files \<times> (exc + bytes)" where
  "save_frames page_index html_dir dsk [] fs combined = (fs, Inr combined)"
| "save_frames page_index html_dir dsk ((name, html) # rest) fs combined =
     (let file_path = html_path page_index html_dir name in
      case write_bytes (dsk file_path) fs file_path (encode_utf8 html) of
        (fs1, Some e) \<Rightarrow> (fs1, Inl e)
      | (fs1, None) \<Rightarrow>
          save_frames page_index html_dir dsk rest fs1 (combined @ encode_utf8 html))"

definition save_frame_html ::
  "lib \<Rightarrow> int \<Rightarrow> string \<Rightarrow> (string \<times> string) list \<Rightarrow> (path \<Rightarrow> disk_reply) \<Rightarrow> files
     \<Rightarrow> files \<times> (exc + string)" where
  "save_frame_html L page_index html_dir contents dsk fs =
     (case save_frames page_index html_dir dsk contents fs [] of
        (fs1, Inl e) \<Rightarrow> (fs1, Inl e)
      | (fs1, Inr combined) \<Rightarrow> (fs1, Inr (hexdigest (sha256 L combined))))"

text \<open>
  The body of the loop in \<^verbatim>\<open>main\<close>:
  \<^verbatim>\<open>
  for page_index in range(1, args.max_pages + 1):
      frame_contents = {} ... (as above)
      current_hash = await save_frame_html(page_index, paths["html"], frame_contents)

      if current_hash == last_hash:
          unchanged_count += 1
      else:
          unchanged_count = 0
          last_hash = current_hash

      if unchanged_count >= args.stop_unchanged:
          print("No page changes detected. Stopping capture.")
          break

      await page.keyboard.press("ArrowRight")
      await page.wait_for_timeout(args.delay * 1000)
  \<close>
  A command is recorded when it is issued, also when it then raises.
\<close>

definition compare_hash :: "string \<Rightarrow> capture \<Rightarrow> capture" where
  "compare_hash current_hash st =
     (if current_hash = last_hash st
      then st\<lparr>unchanged_count := unchanged_count st + 1\<rparr>
      else st\<lparr>unchanged_count := 0, last_hash := current_hash\<rparr>)"

definition issue :: "command \<Rightarrow> capture \<Rightarrow> capture" where
  "issue c st = st\<lparr>commands := commands st @ [c]\<rparr>"

definition loop_body ::
  "lib \<Rightarrow> args \<Rightarrow> string \<Rightarrow> tick \<Rightarrow> int \<Rightarrow> capture \<Rightarrow> step \<times> capture" where
  "loop_body L a html_dir t page_index st =
     (let st0 = issue Read_frames st in
      case collect_frames (frames t) [] of
        (frame_contents, Some e) \<Rightarrow> (Raise e, st0)
      | (frame_contents, None) \<Rightarrow>
          (case save_frame_html L page_index html_dir frame_contents (html_disk t) (html_files st0) of
             (fs, Inl e) \<Rightarrow> (Raise e, st0\<lparr>html_files := fs\<rparr>)
           | (fs, Inr current_hash) \<Rightarrow>
               let st1 = compare_hash current_hash (st0\<lparr>html_files := fs\<rparr>) in
               if unchanged_count st1 \<ge> stop_unchanged a
               then (Break, issue (Print ''No page changes detected. Stopping capture.'') st1)
               else
                 let st2 = issue (Press ''ArrowRight'') st1 in
                 (case keyboard t of
                    Some e \<Rightarrow> (Raise e, st2)
                  | None \<Rightarrow>
                      let st3 = issue Wait_for_timeout st2 in
                      (case timer t of
                         Some e \<Rightarrow> (Raise e, st3)
                       | None \<Rightarrow> (Continue, st3)))))"

fun capture_loop ::
  "lib \<Rightarrow> args \<Rightarrow> string \<Rightarrow> (int \<Rightarrow> tick) \<Rightarrow> int list \<Rightarrow> capture \<Rightarrow> ending \<times> capture" where
  "capture_loop L a html_dir env [] st = (Exhausted, st)"
| "capture_loop L a html_dir env (page_index # rest) st =
     (case loop_body L a html_dir (env page_index) page_index st of
        (Continue, st1) \<Rightarrow> capture_loop L a html_dir env rest st1
      | (Break, st1) \<Rightarrow> (Stopped, st1)
      | (Raise e, st1) \<Rightarrow> (Raised e, st1))"

text \<open>
  The loop as \<^verbatim>\<open>main\<close> runs it: \<^verbatim>\<open>unchanged_count = 0\<close>, \<^verbatim>\<open>last_hash = ""\<close>, and the
  page indexes \<^verbatim>\<open>range(1, args.max_pages + 1)\<close>. The environment \<open>env\<close> gives the tick
  of each page index; \<open>fs\<close> is the markup directory before the run.
\<close>

definition start :: "files \<Rightarrow> capture" where
  "start fs = \<lparr>unchanged_count = 0, last_hash = [], html_files = fs, commands = []\<rparr>"

definition capture_pages ::
  "lib \<Rightarrow> args \<Rightarrow> string \<Rightarrow> (int \<Rightarrow> tick) \<Rightarrow> files \<Rightarrow> ending \<times> capture" where
  "capture_pages L a html_dir env fs = capture_loop L a html_dir env [1..max_pages a] (start fs)"

text \<open>The iterations executed, and the page-turn commands issued.\<close>

definition iterations :: "capture \<Rightarrow> nat" where
  "iterations st = length (filter (\<lambda>c. c = Read_frames) (commands st))"

definition page_turns :: "capture \<Rightarrow> nat" where
  "page_turns st = length (filter (\<lambda>c. c = Press ''ArrowRight'') (commands st))"

section \<open>The specification's notions\<close>

text \<open>
  The Content Fingerprint in the specification's words: the digest over the concatenation
  of all frame markups of a snapshot, in the order of the snapshot.
\<close>

definition content_fingerprint :: "lib \<Rightarrow> (string \<times> string) list \<Rightarrow> string" where
  "content_fingerprint L contents =
     hexdigest (sha256 L (concat (map (\<lambda>entry. encode_utf8 (snd entry)) contents)))"

text \<open>The snapshot of a tick, and the fingerprint of the \<open>n\<close>-th snapshot of a run; the
  fingerprint before the first snapshot is the empty-string sentinel.\<close>

definition snapshot :: "tick \<Rightarrow> (string \<times> string) list" where
  "snapshot t = fst (collect_frames (frames t) [])"

definition fingerprint_at :: "lib \<Rightarrow> (int \<Rightarrow> tick) \<Rightarrow> nat \<Rightarrow> string" where
  "fingerprint_at L env n = (if n = 0 then [] else content_fingerprint L (snapshot (env (int n))))"

text \<open>
  The Stop Counter in the specification's words: the count of consecutive snapshots, up
  to the \<open>n\<close>-th, whose fingerprint equals the previous one.
\<close>

fun streak :: "(nat \<Rightarrow> string) \<Rightarrow> nat \<Rightarrow> nat" where
  "streak h 0 = 0"
| "streak h (Suc n) = (if h (Suc n) = h n then Suc (streak h n) else 0)"

text \<open>
  An iteration without a fault up to the stop decision: no frame raises out of the loop
  and the disk stores every markup file. A page turn without a fault.
\<close>

definition snapshot_ok :: "string \<Rightarrow> int \<Rightarrow> tick \<Rightarrow> bool" where
  "snapshot_ok html_dir page_index t =
     (snd (collect_frames (frames t) []) = None
      \<and> list_all (\<lambda>entry. html_disk t (html_path page_index html_dir (fst entry)) = Stored)
           (snapshot t))"

definition turn_ok :: "tick \<Rightarrow> bool" where
  "turn_ok t = (keyboard t = None \<and> timer t = None)"


section \<open>Predicates of the statements\<close>

text \<open>
  The disk stores every write of a body whose digest is \<open>d\<close>; the disk tears no write;
  no two files have contents of the same digest; every file's digest is in the hash set;
  the content of a frame can be read.
\<close>

definition stores :: "lib \<Rightarrow> string \<Rightarrow> arrival \<Rightarrow> bool" where
  "stores L d a = (case body (resp a) of Inl e \<Rightarrow> True
     | Inr b \<Rightarrow> hexdigest (sha256 L b) = d \<longrightarrow> disk a = Stored)"

definition untorn :: "arrival \<Rightarrow> bool" where
  "untorn a = (case disk a of Torn e part \<Rightarrow> False | _ \<Rightarrow> True)"

definition one_file_per_digest :: "lib \<Rightarrow> files \<Rightarrow> bool" where
  "one_file_per_digest L fs =
     (\<forall>p q x y. fs p = Some x \<and> fs q = Some y \<and> hexdigest (sha256 L x) = hexdigest (sha256 L y) \<longrightarrow> p = q)"

definition files_recorded :: "lib \<Rightarrow> interceptor \<Rightarrow> bool" where
  "files_recorded L st = (\<forall>p x. image_files st p = Some x \<longrightarrow> hexdigest (sha256 L x) \<in> saved_hashes st)"

definition readable :: "frame \<Rightarrow> bool" where
  "readable f = (case frame_content f of Inr html \<Rightarrow> True | Inl e \<Rightarrow> False)"

section \<open>Sample inputs\<close>

text \<open>
  Concrete inputs on which the theorems below are instantiated. The sample library hashes
  a byte string to its length and knows the media type \<^verbatim>\<open>image/png\<close> only.
\<close>

definition sample_lib :: lib where
  "sample_lib =
     \<lparr>sha256 = (\<lambda>b. of_nat (length b)),
      mime_guess_extension = (\<lambda>t. if t = ''image/png'' then Some ''.png'' else None),
      path_suffix = (\<lambda>u. if u = ''https://cdn.example/cover.jpg'' then ''.jpg'' else [])\<rparr>"

definition fresh_run :: interceptor where
  "fresh_run = \<lparr>saved_hashes = {}, image_files = Map.empty\<rparr>"

definition cover :: arrival where
  "cover =
     \<lparr>resp = \<lparr>resource_type = ''image'', headers = [''content-type'' \<mapsto> ''image/png; q=1''],
              url = ''https://cdn.example/cover.jpg'', body = Inr [137, 80, 78, 71]\<rparr>,
      disk = Stored\<rparr>"

definition mirror :: arrival where
  "mirror =
     \<lparr>resp = \<lparr>resource_type = ''image'', headers = [''content-type'' \<mapsto> ''image/webp''],
              url = ''https://mirror.example/c'', body = Inr [137, 80, 78, 71]\<rparr>,
      disk = Stored\<rparr>"

definition cover_refused :: arrival where
  "cover_refused = cover\<lparr>disk := Refused (Exc ''OSError'')\<rparr>"

definition pixel_a :: arrival where
  "pixel_a =
     \<lparr>resp = \<lparr>resource_type = ''image'', headers = [''content-type'' \<mapsto> ''image/gif''],
              url = ''https://ads.example/a.gif'', body = Inr []\<rparr>,
      disk = Stored\<rparr>"

definition pixel_b :: arrival where
  "pixel_b =
     \<lparr>resp = \<lparr>resource_type = ''image'', headers = [''content-type'' \<mapsto> ''image/gif''],
              url = ''https://ads.example/b.gif'', body = Inr []\<rparr>,
      disk = Stored\<rparr>"

definition sound_disk :: "path \<Rightarrow> disk_reply" where
  "sound_disk p = Stored"

definition reader_frame :: frame where
  "reader_frame = \<lparr>frame_url = ''https://read.example/book'', frame_name = ''main'',
     frame_content = Inr ''<p>The End</p>''\<rparr>"

definition renamed_frame :: frame where
  "renamed_frame = \<lparr>frame_url = [], frame_name = ''main'',
     frame_content = Inr ''<p>The End</p>''\<rparr>"

definition detached_frame :: frame where
  "detached_frame = \<lparr>frame_url = ''https://ads.example/slot'', frame_name = ''ad'',
     frame_content = Inl (Exc ''Error'')\<rparr>"

definition footer_frame :: frame where
  "footer_frame = \<lparr>frame_url = [], frame_name = ''footer'',
     frame_content = Inr ''<i>1 of 9</i>''\<rparr>"

definition still_page :: "int \<Rightarrow> tick" where
  "still_page i = \<lparr>frames = [reader_frame], html_disk = sound_disk, keyboard = None, timer = None\<rparr>"

definition renamed_page :: tick where
  "renamed_page = \<lparr>frames = [renamed_frame], html_disk = sound_disk, keyboard = None, timer = None\<rparr>"

definition turning_page :: "int \<Rightarrow> tick" where
  "turning_page i =
     \<lparr>frames = [\<lparr>frame_url = ''https://read.example/book'', frame_name = ''main'',
                 frame_content = Inr (if i = 1 then ''<p>one</p>'' else ''<p>second</p>'')\<rparr>],
      html_disk = sound_disk, keyboard = None, timer = None\<rparr>"

definition split_markup :: "(string \<times> string) list" where
  "split_markup = [(''https://read.example/a'', ''<p>The ''), (''frame_tail'', ''End</p>'')]"

definition whole_markup :: "(string \<times> string) list" where
  "whole_markup = [(''https://read.example/book'', ''<p>The End</p>'')]"

definition after_first :: capture where
  "after_first = \<lparr>unchanged_count = 0, last_hash = content_fingerprint sample_lib whole_markup,
     html_files = Map.empty, commands = [Read_frames, Press ''ArrowRight'', Wait_for_timeout]\<rparr>"

section \<open>The image interceptor: deduplication\<close>

lemma hexdigest_length: "length (hexdigest w) = 64"
  by (simp add: hexdigest_def)

lemma hexdigest_not_empty: "hexdigest w \<noteq> []"
  using hexdigest_length [of w] by auto

lemma save_response_images_saved_mono:
  "saved_hashes st \<subseteq> saved_hashes (snd (save_response_images L a image_dir st))"
  by (auto simp: save_response_images_def Let_def write_bytes_def
      split: sum.splits option.splits disk_reply.splits prod.splits)

lemma deliver_saved_mono:
  "saved_hashes st \<subseteq> saved_hashes (snd (deliver L image_dir as st))"
proof (induction as arbitrary: st)
  case Nil
  show ?case by simp
next
  case (Cons a as)
  obtain out st1 where s: "save_response_images L a image_dir st = (out, st1)"
    by (cases "save_response_images L a image_dir st")
  have "saved_hashes st \<subseteq> saved_hashes st1"
    using save_response_images_saved_mono [of st L a image_dir] s by simp
  moreover have "saved_hashes st1 \<subseteq> saved_hashes (snd (deliver L image_dir as st1))"
    by (rule Cons.IH)
  ultimately show ?case using s by (auto split: prod.splits)
qed

lemma duplicate_discarded:
  "image_response (resp a) b \<Longrightarrow> b \<noteq> [] \<Longrightarrow> hexdigest (sha256 L b) \<in> saved_hashes st
   \<Longrightarrow> save_response_images L a image_dir st = (Duplicate, st)"
  by (simp add: save_response_images_def image_response_def Let_def)

text \<open>
  C8. A response whose request is classified as an image and whose body is empty makes
  the interceptor write no file and leaves the Saved Image Hash Set, and the image
  directory, as they were: the task ends at the content-type filter or at the empty-body
  check, never with a saved file.
\<close>

theorem empty_body_writes_nothing:
  assumes "resource_type (resp a) = ''image''" and "body (resp a) = Inr []"
  shows "snd (save_response_images L a image_dir st) = st
    \<and> fst (save_response_images L a image_dir st) \<in> {Not_image_type, Empty_body}"
  using assms by (simp add: save_response_images_def Let_def)

text \<open>The tracking pixel \<open>pixel_a\<close> is such a response.\<close>

theorem empty_body_writes_nothing_witness:
  "snd (save_response_images sample_lib pixel_a ''output/images'' fresh_run) = fresh_run
   \<and> fst (save_response_images sample_lib pixel_a ''output/images'' fresh_run) \<in> {Not_image_type, Empty_body}"
  using empty_body_writes_nothing [of pixel_a sample_lib "''output/images''" fresh_run]
  by (simp add: pixel_a_def)

text \<open>
  C10. The digest enters the Saved Image Hash Set before the file is written. When the
  write of a new image fails, the task ends with the exception, the digest is in the set
  all the same, and after any further arrivals every response with the same bytes is
  discarded as a duplicate. When the disk refused the write the image directory is
  unchanged, so the set records content for which there is no file.
\<close>

theorem failed_write_keeps_digest:
  assumes img: "image_response (resp a) b" and ne: "b \<noteq> []"
    and fresh: "hexdigest (sha256 L b) \<notin> saved_hashes st"
    and fail: "disk a \<noteq> Stored"
    and later: "image_response (resp a') b"
  shows "(\<exists>e. fst (save_response_images L a image_dir st) = Write_raised e)
    \<and> hexdigest (sha256 L b) \<in> saved_hashes (snd (save_response_images L a image_dir st))
    \<and> ((\<exists>e. disk a = Refused e) \<longrightarrow>
         image_files (snd (save_response_images L a image_dir st)) = image_files st)
    \<and> (let st2 = snd (deliver L image_dir as (snd (save_response_images L a image_dir st)))
       in save_response_images L a' image_dir st2 = (Duplicate, st2))"
proof -
  let ?st1 = "snd (save_response_images L a image_dir st)"
  have 1: "\<exists>e. fst (save_response_images L a image_dir st) = Write_raised e"
    using img ne fresh fail
    by (cases "disk a") (simp_all add: save_response_images_def image_response_def Let_def write_bytes_def)
  have 2: "hexdigest (sha256 L b) \<in> saved_hashes ?st1"
    using img ne fresh fail
    by (cases "disk a") (simp_all add: save_response_images_def image_response_def Let_def write_bytes_def)
  have 3: "(\<exists>e. disk a = Refused e) \<longrightarrow> image_files ?st1 = image_files st"
    using img ne fresh
    by (auto simp: save_response_images_def image_response_def Let_def write_bytes_def)
  have "hexdigest (sha256 L b) \<in> saved_hashes (snd (deliver L image_dir as ?st1))"
    using 2 deliver_saved_mono [of ?st1 L image_dir as] by blast
  then have 4: "save_response_images L a' image_dir (snd (deliver L image_dir as ?st1))
      = (Duplicate, snd (deliver L image_dir as ?st1))"
    using later ne by (rule duplicate_discarded [rotated 2])
  show ?thesis using 1 2 3 4 by (simp add: Let_def)
qed

text \<open>
  The disk refuses the cover image in an empty directory: its digest is recorded, the
  directory stays empty, and the mirror's copy of the same bytes is a duplicate.
\<close>

theorem failed_write_keeps_digest_witness:
  "hexdigest (sha256 sample_lib [137, 80, 78, 71])
     \<in> saved_hashes (snd (save_response_images sample_lib cover_refused ''output/images'' fresh_run))
   \<and> image_files (snd (save_response_images sample_lib cover_refused ''output/images'' fresh_run)) = Map.empty
   \<and> fst (save_response_images sample_lib mirror ''output/images''
        (snd (deliver sample_lib ''output/images'' [pixel_a]
           (snd (save_response_images sample_lib cover_refused ''output/images'' fresh_run))))) = Duplicate"
proof -
  have 1: "image_response (resp cover_refused) [137, 80, 78, 71]"
    by (simp add: image_response_def cover_refused_def cover_def startswith_def)
  have 2: "image_response (resp mirror) [137, 80, 78, 71]"
    by (simp add: image_response_def mirror_def startswith_def)
  have 3: "hexdigest (sha256 sample_lib [137, 80, 78, 71]) \<notin> saved_hashes fresh_run"
    by (simp add: fresh_run_def)
  have 4: "disk cover_refused \<noteq> Stored" "\<exists>e. disk cover_refused = Refused e"
    by (simp_all add: cover_refused_def)
  have 5: "image_files fresh_run = Map.empty" by (simp add: fresh_run_def)
  have 6: "[137, 80, 78, 71] \<noteq> ([] :: bytes)" by simp
  show ?thesis
    using failed_write_keeps_digest [OF 1 6 3 4(1) 2, of "''output/images''" "[pixel_a]"] 4(2) 5
    by (simp add: Let_def)
qed

lemma saved_outcome_fresh:
  assumes "save_response_images L a image_dir st = (Saved n b, st1)"
  shows "hexdigest (sha256 L b) \<notin> saved_hashes st \<and> hexdigest (sha256 L b) \<in> saved_hashes st1"
  using assms
  by (auto simp: save_response_images_def Let_def write_bytes_def
      split: if_splits sum.splits option.splits disk_reply.splits prod.splits)

lemma written_fresh:
  "deliver L image_dir as st = (outs, st') \<Longrightarrow> w \<in> set (written outs)
   \<Longrightarrow> hexdigest (sha256 L (snd w)) \<notin> saved_hashes st"
proof (induction as arbitrary: st outs)
  case Nil
  then show ?case by simp
next
  case (Cons a as)
  obtain out st1 where s: "save_response_images L a image_dir st = (out, st1)"
    by (cases "save_response_images L a image_dir st")
  obtain outs1 where d: "deliver L image_dir as st1 = (outs1, st')" and o: "outs = out # outs1"
    using Cons.prems(1) s by (auto split: prod.splits)
  have mono: "saved_hashes st \<subseteq> saved_hashes st1"
    using save_response_images_saved_mono [of st L a image_dir] s by simp
  show ?case
  proof (cases "w \<in> set (written outs1)")
    case True
    then have "hexdigest (sha256 L (snd w)) \<notin> saved_hashes st1"
      using Cons.IH [OF d] by simp
    then show ?thesis using mono by blast
  next
    case False
    then obtain n b where "out = Saved n b" and "w = (n, b)"
      using Cons.prems(2) o by (cases out) auto
    then show ?thesis using saved_outcome_fresh s by fastforce
  qed
qed

lemma written_distinct:
  "deliver L image_dir as st = (outs, st')
   \<Longrightarrow> distinct (map (\<lambda>w. hexdigest (sha256 L (snd w))) (written outs))"
proof (induction as arbitrary: st outs)
  case Nil
  then show ?case by simp
next
  case (Cons a as)
  obtain out st1 where s: "save_response_images L a image_dir st = (out, st1)"
    by (cases "save_response_images L a image_dir st")
  obtain outs1 where d: "deliver L image_dir as st1 = (outs1, st')" and o: "outs = out # outs1"
    using Cons.prems(1) s by (auto split: prod.splits)
  have ih: "distinct (map (\<lambda>w. hexdigest (sha256 L (snd w))) (written outs1))"
    by (rule Cons.IH [OF d])
  show ?case
  proof (cases out)
    case (Saved n b)
    then have "hexdigest (sha256 L b) \<in> saved_hashes st1"
      using saved_outcome_fresh s by blast
    then have "\<forall>w \<in> set (written outs1). hexdigest (sha256 L (snd w)) \<noteq> hexdigest (sha256 L b)"
      using written_fresh [OF d] by metis
    then show ?thesis using ih o Saved by auto
  qed (use ih o in simp_all)
qed

lemma distinct_filter_le_one:
  "distinct (map f ws) \<Longrightarrow> length (filter (\<lambda>w. f w = d) ws) \<le> Suc 0"
  by (induction ws) (auto simp: filter_empty_conv intro: rev_image_eqI)

lemma written_with_le_one:
  "length (written_with L d (fst (deliver L image_dir as st))) \<le> 1"
proof -
  obtain outs st' where d: "deliver L image_dir as st = (outs, st')"
    by (cases "deliver L image_dir as st")
  show ?thesis
    using distinct_filter_le_one [OF written_distinct [OF d], of d] d
    by (simp add: written_with_def)
qed

lemma step_saved_origin:
  assumes "save_response_images L a image_dir st = (out, st1)" and "stores L d a"
    and "d \<in> saved_hashes st1"
  shows "d \<in> saved_hashes st \<or> (\<exists>n b. out = Saved n b \<and> hexdigest (sha256 L b) = d)"
  using assms
  by (auto simp: save_response_images_def Let_def write_bytes_def stores_def
      split: if_splits sum.splits option.splits disk_reply.splits prod.splits)

lemma deliver_saved_origin:
  "deliver L image_dir as st = (outs, st') \<Longrightarrow> list_all (stores L d) as
   \<Longrightarrow> d \<in> saved_hashes st'
   \<Longrightarrow> d \<in> saved_hashes st \<or> written_with L d outs \<noteq> []"
proof (induction as arbitrary: st outs)
  case Nil
  then show ?case by simp
next
  case (Cons a as)
  obtain out st1 where s: "save_response_images L a image_dir st = (out, st1)"
    by (cases "save_response_images L a image_dir st")
  obtain outs1 where d: "deliver L image_dir as st1 = (outs1, st')" and o: "outs = out # outs1"
    using Cons.prems(1) s by (auto split: prod.splits)
  from Cons.prems(2) have sa: "stores L d a" and sas: "list_all (stores L d) as" by simp_all
  from Cons.IH [OF d sas Cons.prems(3)]
  consider "d \<in> saved_hashes st1" | "written_with L d outs1 \<noteq> []" by blast
  then show ?case
  proof cases
    case 1
    from step_saved_origin [OF s sa 1] show ?thesis
      using o by (auto simp: written_with_def)
  next
    case 2
    then show ?thesis using o by (cases out) (auto simp: written_with_def)
  qed
qed

lemma step_records_digest:
  assumes "image_response (resp a) b" and "b \<noteq> []"
  shows "hexdigest (sha256 L b) \<in> saved_hashes (snd (save_response_images L a image_dir st))"
  using assms
  by (auto simp: save_response_images_def image_response_def Let_def write_bytes_def
      split: option.splits disk_reply.splits prod.splits)

lemma deliver_records_digest:
  "a \<in> set as \<Longrightarrow> image_response (resp a) b \<Longrightarrow> b \<noteq> []
   \<Longrightarrow> hexdigest (sha256 L b) \<in> saved_hashes (snd (deliver L image_dir as st))"
proof (induction as arbitrary: st)
  case Nil
  then show ?case by simp
next
  case (Cons x as)
  obtain out st1 where s: "save_response_images L x image_dir st = (out, st1)"
    by (cases "save_response_images L x image_dir st")
  show ?case
  proof (cases "a = x")
    case True
    then have "hexdigest (sha256 L b) \<in> saved_hashes st1"
      using step_records_digest [OF Cons.prems(2,3), of L image_dir st] s by simp
    then have "hexdigest (sha256 L b) \<in> saved_hashes (snd (deliver L image_dir as st1))"
      using deliver_saved_mono by blast
    then show ?thesis using s by (auto split: prod.splits)
  next
    case False
    then have "a \<in> set as" using Cons.prems(1) by simp
    from Cons.IH [OF this Cons.prems(2,3), of st1] show ?thesis
      using s by (auto split: prod.splits)
  qed
qed

lemma step_disk_invariant:
  assumes "untorn a" and "files_recorded L st" and "one_file_per_digest L (image_files st)"
  shows "files_recorded L (snd (save_response_images L a image_dir st))
    \<and> one_file_per_digest L (image_files (snd (save_response_images L a image_dir st)))"
proof (cases "fst (save_response_images L a image_dir st)")
  case (Saved n b)
  then have st1: "snd (save_response_images L a image_dir st) =
      \<lparr>saved_hashes = insert (hexdigest (sha256 L b)) (saved_hashes st),
       image_files = (image_files st)((image_dir, n) \<mapsto> b)\<rparr>"
    and fresh: "hexdigest (sha256 L b) \<notin> saved_hashes st"
    by (auto simp: save_response_images_def Let_def write_bytes_def
        split: if_splits sum.splits option.splits disk_reply.splits prod.splits)
  have 1: "files_recorded L (snd (save_response_images L a image_dir st))"
    using assms(2) unfolding st1 files_recorded_def by (simp split: if_splits)
  have 2: "one_file_per_digest L (image_files (snd (save_response_images L a image_dir st)))"
    unfolding st1 one_file_per_digest_def
  proof (intro allI impI)
    fix p q x y
    assume h: "(image_files \<lparr>saved_hashes = insert (hexdigest (sha256 L b)) (saved_hashes st),
       image_files = (image_files st)((image_dir, n) \<mapsto> b)\<rparr>) p = Some x \<and>
       (image_files \<lparr>saved_hashes = insert (hexdigest (sha256 L b)) (saved_hashes st),
       image_files = (image_files st)((image_dir, n) \<mapsto> b)\<rparr>) q = Some y \<and>
       hexdigest (sha256 L x) = hexdigest (sha256 L y)"
    show "p = q"
    proof (cases "p = (image_dir, n)")
      case True
      then have xb: "x = b" using h by simp
      show ?thesis
      proof (rule ccontr)
        assume "p \<noteq> q"
        then have "image_files st q = Some y" using h True by auto
        then have "hexdigest (sha256 L y) \<in> saved_hashes st"
          using assms(2) unfolding files_recorded_def by blast
        then show False using fresh h xb by simp
      qed
    next
      case False
      then have px: "image_files st p = Some x" using h by simp
      show ?thesis
      proof (cases "q = (image_dir, n)")
        case True
        then have "y = b" using h by simp
        moreover have "hexdigest (sha256 L x) \<in> saved_hashes st"
          using assms(2) px unfolding files_recorded_def by blast
        ultimately show ?thesis using fresh h by simp
      next
        case False
        then have "image_files st q = Some y" using h by simp
        then show ?thesis using assms(3) px h unfolding one_file_per_digest_def by blast
      qed
    qed
  qed
  show ?thesis using 1 2 by simp
next
  case (Write_raised e)
  then have "image_files (snd (save_response_images L a image_dir st)) = image_files st"
    and "saved_hashes st \<subseteq> saved_hashes (snd (save_response_images L a image_dir st))"
    using assms(1)
    by (auto simp: save_response_images_def Let_def write_bytes_def untorn_def
        split: if_splits sum.splits option.splits disk_reply.splits prod.splits)
  then show ?thesis using assms(2,3) unfolding files_recorded_def by (simp add: subset_iff)
qed (use assms(2,3) in \<open>auto simp: save_response_images_def Let_def write_bytes_def
        split: if_splits sum.splits option.splits disk_reply.splits prod.splits\<close>)

lemma deliver_disk_invariant:
  "list_all untorn as \<Longrightarrow> files_recorded L st \<Longrightarrow> one_file_per_digest L (image_files st)
   \<Longrightarrow> files_recorded L (snd (deliver L image_dir as st))
     \<and> one_file_per_digest L (image_files (snd (deliver L image_dir as st)))"
proof (induction as arbitrary: st)
  case Nil
  then show ?case by simp
next
  case (Cons a as)
  from Cons.prems have ua: "untorn a" and uas: "list_all untorn as" by simp_all
  from step_disk_invariant [OF ua Cons.prems(2,3), of image_dir]
  have "files_recorded L (snd (save_response_images L a image_dir st))"
    and "one_file_per_digest L (image_files (snd (save_response_images L a image_dir st)))"
    by simp_all
  from Cons.IH [OF uas this] show ?case by (auto split: prod.splits)
qed

text \<open>
  C1 fails as stated: two image responses with the same empty body and different URLs
  leave no file at all, because an empty body is ignored.
\<close>

theorem identical_empty_bodies_no_file:
  "image_response (resp pixel_a) [] \<and> image_response (resp pixel_b) []
   \<and> written (fst (deliver sample_lib ''output/images'' [pixel_a, pixel_b] fresh_run)) = []"
  by (simp add: image_response_def pixel_a_def pixel_b_def startswith_def
      save_response_images_def)

text \<open>
  C1 (amended). In every run, for every order of arrival and whatever the URLs and the
  disk's replies are, at most one image file is written per content digest. When a
  response that passes both filters has a non-empty body, the run starts with the empty
  hash set and the disk stores the writes of that digest, exactly one file with that
  digest is written, however many responses carry these bytes. In a run that starts with
  the empty hash set and an empty image directory, on a disk that tears no write, no two
  image files on disk have the same content digest.
\<close>

theorem identical_bodies_one_file:
  "length (written_with L d (fst (deliver L image_dir as st))) \<le> 1
   \<and> (a \<in> set as \<and> image_response (resp a) b \<and> b \<noteq> [] \<and> d = hexdigest (sha256 L b)
        \<and> list_all (stores L d) as \<and> saved_hashes st = {}
      \<longrightarrow> length (written_with L d (fst (deliver L image_dir as st))) = 1)
   \<and> (list_all untorn as \<and> saved_hashes st = {} \<and> image_files st = Map.empty
      \<longrightarrow> one_file_per_digest L (image_files (snd (deliver L image_dir as st))))"
proof (intro conjI impI)
  show le: "length (written_with L d (fst (deliver L image_dir as st))) \<le> 1"
    by (rule written_with_le_one)
  show "length (written_with L d (fst (deliver L image_dir as st))) = 1"
    if h: "a \<in> set as \<and> image_response (resp a) b \<and> b \<noteq> [] \<and> d = hexdigest (sha256 L b)
        \<and> list_all (stores L d) as \<and> saved_hashes st = {}"
  proof -
    obtain outs st' where dl: "deliver L image_dir as st = (outs, st')"
      by (cases "deliver L image_dir as st")
    have "d \<in> saved_hashes st'"
      using deliver_records_digest [of a as b L image_dir st] h dl by simp
    with deliver_saved_origin [OF dl, of d] h have "written_with L d outs \<noteq> []" by auto
    then have "length (written_with L d outs) \<noteq> 0" by simp
    moreover have "length (written_with L d outs) \<le> 1" using le dl by simp
    ultimately show ?thesis using dl by (simp add: le_Suc_eq)
  qed
  show "one_file_per_digest L (image_files (snd (deliver L image_dir as st)))"
    if h: "list_all untorn as \<and> saved_hashes st = {} \<and> image_files st = Map.empty"
  proof -
    have "files_recorded L st" "one_file_per_digest L (image_files st)"
      using h by (simp_all add: files_recorded_def one_file_per_digest_def)
    with deliver_disk_invariant [of as L st image_dir] h show ?thesis by simp
  qed
qed

text \<open>The cover image arrives twice, from two URLs and under two content types.\<close>

theorem identical_bodies_one_file_witness:
  "length (written_with sample_lib (hexdigest (sha256 sample_lib [137, 80, 78, 71]))
      (fst (deliver sample_lib ''output/images'' [cover, mirror] fresh_run))) = 1
   \<and> one_file_per_digest sample_lib
       (image_files (snd (deliver sample_lib ''output/images'' [cover, mirror] fresh_run)))"
proof -
  have 1: "cover \<in> set [cover, mirror]" by simp
  have 2: "image_response (resp cover) [137, 80, 78, 71]"
    by (simp add: image_response_def cover_def startswith_def)
  have 3: "list_all (stores sample_lib (hexdigest (sha256 sample_lib [137, 80, 78, 71]))) [cover, mirror]"
    by (simp add: stores_def cover_def mirror_def)
  have 4: "list_all untorn [cover, mirror]"
    by (simp add: untorn_def cover_def mirror_def)
  have 5: "saved_hashes fresh_run = {}" "image_files fresh_run = Map.empty"
    by (simp_all add: fresh_run_def)
  show ?thesis
    using identical_bodies_one_file [of sample_lib "hexdigest (sha256 sample_lib [137, 80, 78, 71])"
        "''output/images''" "[cover, mirror]" fresh_run cover "[137, 80, 78, 71]"] 1 2 3 4 5
    by blast
qed

section \<open>The image interceptor: file extension\<close>

lemma split_on_not_empty: "split_on sep s \<noteq> []"
  by (induction s) (auto split: list.splits)

lemma split_on_absent: "sep \<notin> set t \<Longrightarrow> split_on sep t = [t]"
  by (induction t) auto

lemma hd_split_on_append:
  "sep \<notin> set t \<Longrightarrow> hd (split_on sep (t @ sep # params)) = t"
  using split_on_not_empty by (induction t) (auto split: list.splits)

text \<open>
  C7. The extension is the table's entry for the declared content type, read up to the
  first \<open>;\<close> and stripped, when the content type is not empty and the entry is not
  empty; otherwise it is \<^verbatim>\<open>Path(url).suffix\<close> when that is not empty, and \<^verbatim>\<open>.img\<close>
  otherwise; parameters after \<open>;\<close> do not change it. In particular a new image whose
  content type names \<^verbatim>\<open>image/png\<close> is stored under the first 16 digits of its digest
  followed by the table's extension for \<^verbatim>\<open>image/png\<close>, whatever its URL is.
\<close>

theorem extension_resolution:
  "(content_type \<noteq> [] \<and> e \<noteq> []
      \<and> mime_guess_extension L (strip (hd (split_on CHR '';'' content_type))) = Some e
     \<longrightarrow> guess_extension L content_type u = e)
   \<and> (content_type = []
      \<or> mime_guess_extension L (strip (hd (split_on CHR '';'' content_type))) = None
      \<or> mime_guess_extension L (strip (hd (split_on CHR '';'' content_type))) = Some []
     \<longrightarrow> guess_extension L content_type u
          = (if path_suffix L u \<noteq> [] then path_suffix L u else ''.img''))
   \<and> (t \<noteq> [] \<and> CHR '';'' \<notin> set t
     \<longrightarrow> guess_extension L (t @ CHR '';'' # params) u = guess_extension L t u)
   \<and> (mime_guess_extension L ''image/png'' = Some e \<and> e \<noteq> []
      \<and> resource_type (resp a) = ''image'' \<and> headers (resp a) ''content-type'' = Some ct
      \<and> startswith ct ''image/'' \<and> strip (hd (split_on CHR '';'' ct)) = ''image/png''
      \<and> body (resp a) = Inr b \<and> b \<noteq> [] \<and> hexdigest (sha256 L b) \<notin> saved_hashes st
      \<and> disk a = Stored
     \<longrightarrow> fst (save_response_images L a image_dir st) = Saved (take 16 (hexdigest (sha256 L b)) @ e) b
       \<and> image_files (snd (save_response_images L a image_dir st))
            (image_dir, take 16 (hexdigest (sha256 L b)) @ e) = Some b)"
proof (intro conjI)
  show "content_type \<noteq> [] \<and> e \<noteq> []
      \<and> mime_guess_extension L (strip (hd (split_on CHR '';'' content_type))) = Some e
     \<longrightarrow> guess_extension L content_type u = e"
    by (simp add: guess_extension_def from_content_type_def)
  show "content_type = []
      \<or> mime_guess_extension L (strip (hd (split_on CHR '';'' content_type))) = None
      \<or> mime_guess_extension L (strip (hd (split_on CHR '';'' content_type))) = Some []
     \<longrightarrow> guess_extension L content_type u
          = (if path_suffix L u \<noteq> [] then path_suffix L u else ''.img'')"
    by (auto simp: guess_extension_def from_content_type_def Let_def)
  show "t \<noteq> [] \<and> CHR '';'' \<notin> set t
     \<longrightarrow> guess_extension L (t @ CHR '';'' # params) u = guess_extension L t u"
    by (simp add: guess_extension_def from_content_type_def hd_split_on_append split_on_absent)
  show "mime_guess_extension L ''image/png'' = Some e \<and> e \<noteq> []
      \<and> resource_type (resp a) = ''image'' \<and> headers (resp a) ''content-type'' = Some ct
      \<and> startswith ct ''image/'' \<and> strip (hd (split_on CHR '';'' ct)) = ''image/png''
      \<and> body (resp a) = Inr b \<and> b \<noteq> [] \<and> hexdigest (sha256 L b) \<notin> saved_hashes st
      \<and> disk a = Stored
     \<longrightarrow> fst (save_response_images L a image_dir st) = Saved (take 16 (hexdigest (sha256 L b)) @ e) b
       \<and> image_files (snd (save_response_images L a image_dir st))
            (image_dir, take 16 (hexdigest (sha256 L b)) @ e) = Some b"
  proof
    assume h: "mime_guess_extension L ''image/png'' = Some e \<and> e \<noteq> []
      \<and> resource_type (resp a) = ''image'' \<and> headers (resp a) ''content-type'' = Some ct
      \<and> startswith ct ''image/'' \<and> strip (hd (split_on CHR '';'' ct)) = ''image/png''
      \<and> body (resp a) = Inr b \<and> b \<noteq> [] \<and> hexdigest (sha256 L b) \<notin> saved_hashes st
      \<and> disk a = Stored"
    then have "ct \<noteq> []" by (auto simp: startswith_def)
    with h have g: "guess_extension L ct (url (resp a)) = e"
      by (simp add: guess_extension_def from_content_type_def)
    show "fst (save_response_images L a image_dir st) = Saved (take 16 (hexdigest (sha256 L b)) @ e) b
       \<and> image_files (snd (save_response_images L a image_dir st))
            (image_dir, take 16 (hexdigest (sha256 L b)) @ e) = Some b"
      using h g by (simp add: save_response_images_def Let_def write_bytes_def)
  qed
qed

text \<open>
  The cover image is declared \<^verbatim>\<open>image/png; q=1\<close> and its URL ends in \<^verbatim>\<open>.jpg\<close>: it is
  stored as \<^verbatim>\<open>.png\<close>. Without a content type the URL's suffix is taken, and without
  either \<^verbatim>\<open>.img\<close>.
\<close>

theorem extension_resolution_witness:
  "fst (save_response_images sample_lib cover ''output/images'' fresh_run)
     = Saved (take 16 (hexdigest (sha256 sample_lib [137, 80, 78, 71])) @ ''.png'') [137, 80, 78, 71]
   \<and> path_suffix sample_lib (url (resp cover)) = ''.jpg''
   \<and> guess_extension sample_lib [] ''https://cdn.example/cover.jpg'' = ''.jpg''
   \<and> guess_extension sample_lib ''image/unknown'' ''https://cdn.example/blob'' = ''.img''"
proof -
  have s: "strip (hd (split_on CHR '';'' ''image/png; q=1'')) = ''image/png''"
    by (simp add: strip_def is_space_def)
  have u: "strip (hd (split_on CHR '';'' ''image/unknown'')) = ''image/unknown''"
    by (simp add: strip_def is_space_def)
  have 1: "mime_guess_extension sample_lib ''image/png'' = Some ''.png'' \<and> ''.png'' \<noteq> []
      \<and> resource_type (resp cover) = ''image''
      \<and> headers (resp cover) ''content-type'' = Some ''image/png; q=1''
      \<and> startswith ''image/png; q=1'' ''image/''
      \<and> strip (hd (split_on CHR '';'' ''image/png; q=1'')) = ''image/png''
      \<and> body (resp cover) = Inr [137, 80, 78, 71] \<and> [137, 80, 78, 71] \<noteq> ([] :: bytes)
      \<and> hexdigest (sha256 sample_lib [137, 80, 78, 71]) \<notin> saved_hashes fresh_run
      \<and> disk cover = Stored"
    using s by (simp add: sample_lib_def cover_def startswith_def fresh_run_def)
  have 2: "([] :: string) = []
      \<or> mime_guess_extension sample_lib (strip (hd (split_on CHR '';'' []))) = None
      \<or> mime_guess_extension sample_lib (strip (hd (split_on CHR '';'' []))) = Some []"
    by simp
  have 3: "''image/unknown'' = []
      \<or> mime_guess_extension sample_lib (strip (hd (split_on CHR '';'' ''image/unknown''))) = None
      \<or> mime_guess_extension sample_lib (strip (hd (split_on CHR '';'' ''image/unknown''))) = Some []"
    unfolding u by (simp add: sample_lib_def)
  have 4: "path_suffix sample_lib (url (resp cover)) = ''.jpg''"
    "path_suffix sample_lib ''https://cdn.example/cover.jpg'' = ''.jpg''"
    "path_suffix sample_lib ''https://cdn.example/blob'' = []"
    by (simp_all add: sample_lib_def cover_def)
  from extension_resolution [of "''image/png; q=1''" "''.png''" sample_lib "url (resp cover)" "[]" "[]"
      cover "''image/png; q=1''" "[137, 80, 78, 71]" fresh_run "''output/images''"] 1
  have a: "fst (save_response_images sample_lib cover ''output/images'' fresh_run)
     = Saved (take 16 (hexdigest (sha256 sample_lib [137, 80, 78, 71])) @ ''.png'') [137, 80, 78, 71]"
    by blast
  from extension_resolution [of "[]" "[]" sample_lib "''https://cdn.example/cover.jpg''" "[]" "[]"
      cover "[]" "[]" fresh_run "[]"] 2
  have "guess_extension sample_lib [] ''https://cdn.example/cover.jpg''
      = (if path_suffix sample_lib ''https://cdn.example/cover.jpg'' \<noteq> []
         then path_suffix sample_lib ''https://cdn.example/cover.jpg'' else ''.img'')"
    by blast
  then have b: "guess_extension sample_lib [] ''https://cdn.example/cover.jpg'' = ''.jpg''"
    using 4 by simp
  from extension_resolution [of "''image/unknown''" "[]" sample_lib "''https://cdn.example/blob''"
      "[]" "[]" cover "[]" "[]" fresh_run "[]"] 3
  have "guess_extension sample_lib ''image/unknown'' ''https://cdn.example/blob''
      = (if path_suffix sample_lib ''https://cdn.example/blob'' \<noteq> []
         then path_suffix sample_lib ''https://cdn.example/blob'' else ''.img'')"
    by blast
  then have c: "guess_extension sample_lib ''image/unknown'' ''https://cdn.example/blob'' = ''.img''"
    using 4 by simp
  show ?thesis using a b c 4 by simp
qed

section \<open>The content fingerprint\<close>

lemma save_frames_Inr:
  "snd (save_frames i dir dsk c fs combined) = Inr out
   \<Longrightarrow> out = combined @ concat (map (\<lambda>entry. encode_utf8 (snd entry)) c)"
proof (induction c arbitrary: fs combined)
  case Nil
  then show ?case by simp
next
  case (Cons entry c)
  obtain name html where e: "entry = (name, html)" by (cases entry)
  show ?case
  proof (cases "dsk (html_path i dir name)")
    case Stored
    then have "snd (save_frames i dir dsk c (fs(html_path i dir name \<mapsto> encode_utf8 html))
        (combined @ encode_utf8 html)) = Inr out"
      using Cons.prems e by (simp add: write_bytes_def Let_def)
    from Cons.IH [OF this] show ?thesis using e by simp
  qed (use Cons.prems e in \<open>simp_all add: write_bytes_def Let_def\<close>)
qed

lemma save_frames_stored:
  "list_all (\<lambda>entry. dsk (html_path i dir (fst entry)) = Stored) c
   \<Longrightarrow> snd (save_frames i dir dsk c fs combined)
       = Inr (combined @ concat (map (\<lambda>entry. encode_utf8 (snd entry)) c))"
proof (induction c arbitrary: fs combined)
  case Nil
  then show ?case by simp
next
  case (Cons entry c)
  obtain name html where e: "entry = (name, html)" by (cases entry)
  from Cons.prems e have s: "dsk (html_path i dir name) = Stored"
    and r: "list_all (\<lambda>entry. dsk (html_path i dir (fst entry)) = Stored) c" by simp_all
  show ?case using Cons.IH [OF r] s e by (simp add: write_bytes_def Let_def)
qed

lemma save_frame_html_Inr:
  "snd (save_frame_html L i dir c dsk fs) = Inr h \<Longrightarrow> h = content_fingerprint L c"
proof -
  assume a: "snd (save_frame_html L i dir c dsk fs) = Inr h"
  obtain fs1 r where s: "save_frames i dir dsk c fs [] = (fs1, r)"
    by (cases "save_frames i dir dsk c fs []")
  then obtain out where r: "r = Inr out" and h: "h = hexdigest (sha256 L out)"
    using a by (cases r) (simp_all add: save_frame_html_def)
  have "out = concat (map (\<lambda>entry. encode_utf8 (snd entry)) c)"
    using save_frames_Inr [of i dir dsk c fs "[]" out] s r by simp
  then show ?thesis using h by (simp add: content_fingerprint_def)
qed

lemma save_frame_html_stored:
  assumes "list_all (\<lambda>entry. dsk (html_path i dir (fst entry)) = Stored) c"
  shows "snd (save_frame_html L i dir c dsk fs) = Inr (content_fingerprint L c)"
proof -
  obtain fs1 r where s: "save_frames i dir dsk c fs [] = (fs1, r)"
    by (cases "save_frames i dir dsk c fs []")
  have "r = Inr (concat (map (\<lambda>entry. encode_utf8 (snd entry)) c))"
    using save_frames_stored [OF assms, of fs "[]"] s by simp
  then show ?thesis using s by (simp add: save_frame_html_def content_fingerprint_def)
qed

lemma content_fingerprint_not_empty: "content_fingerprint L c \<noteq> []"
  by (simp add: content_fingerprint_def hexdigest_not_empty)

text \<open>
  C5. The fingerprint is deterministic: when the concatenated encoded markups of two
  snapshots, in their order, are the same bytes, any two fingerprints that
  \<open>save_frame_html\<close> returns for them are equal, whatever the page indexes, the
  directories, the files present and the disk's replies are; and when the disk stores
  the markup files both calls return, with the same fingerprint.
\<close>

theorem fingerprint_deterministic:
  assumes "concat (map (\<lambda>entry. encode_utf8 (snd entry)) c1)
         = concat (map (\<lambda>entry. encode_utf8 (snd entry)) c2)"
  shows "(\<forall>h1 h2. snd (save_frame_html L i1 dir1 c1 dsk1 fs1) = Inr h1
            \<and> snd (save_frame_html L i2 dir2 c2 dsk2 fs2) = Inr h2 \<longrightarrow> h1 = h2)
    \<and> (list_all (\<lambda>entry. dsk1 (html_path i1 dir1 (fst entry)) = Stored) c1
       \<and> list_all (\<lambda>entry. dsk2 (html_path i2 dir2 (fst entry)) = Stored) c2
       \<longrightarrow> (\<exists>h. snd (save_frame_html L i1 dir1 c1 dsk1 fs1) = Inr h
              \<and> snd (save_frame_html L i2 dir2 c2 dsk2 fs2) = Inr h))"
proof -
  have eq: "content_fingerprint L c1 = content_fingerprint L c2"
    using assms by (simp add: content_fingerprint_def)
  show ?thesis
  proof (intro conjI allI impI)
    fix h1 h2
    assume "snd (save_frame_html L i1 dir1 c1 dsk1 fs1) = Inr h1
       \<and> snd (save_frame_html L i2 dir2 c2 dsk2 fs2) = Inr h2"
    then have "h1 = content_fingerprint L c1" and "h2 = content_fingerprint L c2"
      by (auto dest: save_frame_html_Inr)
    then show "h1 = h2" using eq by simp
  next
    assume "list_all (\<lambda>entry. dsk1 (html_path i1 dir1 (fst entry)) = Stored) c1
       \<and> list_all (\<lambda>entry. dsk2 (html_path i2 dir2 (fst entry)) = Stored) c2"
    then have "snd (save_frame_html L i1 dir1 c1 dsk1 fs1) = Inr (content_fingerprint L c1)"
      and "snd (save_frame_html L i2 dir2 c2 dsk2 fs2) = Inr (content_fingerprint L c2)"
      by (simp_all add: save_frame_html_stored)
    then show "\<exists>h. snd (save_frame_html L i1 dir1 c1 dsk1 fs1) = Inr h
              \<and> snd (save_frame_html L i2 dir2 c2 dsk2 fs2) = Inr h"
      using eq by simp
  qed
qed

text \<open>One frame against two frames that split the same markup, under other page
  indexes and directories.\<close>

theorem fingerprint_deterministic_witness:
  "snd (save_frame_html sample_lib 1 ''output/html'' split_markup sound_disk Map.empty)
     = snd (save_frame_html sample_lib 7 ''elsewhere/html'' whole_markup sound_disk Map.empty)
   \<and> \<not> isl (snd (save_frame_html sample_lib 1 ''output/html'' split_markup sound_disk Map.empty))"
proof -
  have 1: "concat (map (\<lambda>entry. encode_utf8 (snd entry)) split_markup)
         = concat (map (\<lambda>entry. encode_utf8 (snd entry)) whole_markup)"
    by (simp add: split_markup_def whole_markup_def encode_utf8_def)
  have 2: "list_all (\<lambda>entry. sound_disk (html_path 1 ''output/html'' (fst entry)) = Stored) split_markup"
    "list_all (\<lambda>entry. sound_disk (html_path 7 ''elsewhere/html'' (fst entry)) = Stored) whole_markup"
    by (simp_all add: sound_disk_def split_markup_def whole_markup_def)
  show ?thesis
    using fingerprint_deterministic [OF 1, of sample_lib 1 "''output/html''" sound_disk Map.empty
        7 "''elsewhere/html''" sound_disk Map.empty] 2
    by auto
qed

lemma loop_body_iterations:
  "iterations (snd (loop_body L a dir t i st)) = Suc (iterations st)"
  by (simp add: loop_body_def iterations_def issue_def compare_hash_def Let_def
      split: prod.splits option.splits sum.splits)

lemma loop_body_page_turns_mono:
  "page_turns st \<le> page_turns (snd (loop_body L a dir t i st))"
  by (simp add: loop_body_def page_turns_def issue_def compare_hash_def Let_def
      split: prod.splits option.splits sum.splits)

lemma loop_body_snapshot_ok:
  assumes "snapshot_ok dir i t"
  shows "loop_body L a dir t i st =
     (let fs = fst (save_frame_html L i dir (snapshot t) (html_disk t) (html_files st));
          st1 = compare_hash (content_fingerprint L (snapshot t))
                  (issue Read_frames st\<lparr>html_files := fs\<rparr>)
      in if unchanged_count st1 \<ge> stop_unchanged a
         then (Break, issue (Print ''No page changes detected. Stopping capture.'') st1)
         else (case keyboard t of
                 Some e \<Rightarrow> (Raise e, issue (Press ''ArrowRight'') st1)
               | None \<Rightarrow>
                   (case timer t of
                      Some e \<Rightarrow> (Raise e, issue Wait_for_timeout (issue (Press ''ArrowRight'') st1))
                    | None \<Rightarrow> (Continue, issue Wait_for_timeout (issue (Press ''ArrowRight'') st1)))))"
proof -
  obtain c where c: "collect_frames (frames t) [] = (c, None)" and sc: "snapshot t = c"
    using assms by (cases "collect_frames (frames t) []") (simp add: snapshot_ok_def snapshot_def)
  have "snd (save_frame_html L i dir c (html_disk t) (html_files st)) = Inr (content_fingerprint L c)"
    using assms sc by (simp add: snapshot_ok_def save_frame_html_stored)
  then obtain fs where s: "save_frame_html L i dir c (html_disk t) (html_files st)
      = (fs, Inr (content_fingerprint L c))"
    by (cases "save_frame_html L i dir c (html_disk t) (html_files st)") simp
  show ?thesis
    using c sc s by (simp add: loop_body_def Let_def issue_def split: option.splits)
qed

text \<open>
  C9. The fingerprint depends on the markups in their order only, not on the frame
  identifiers: two snapshots with the same markups in the same order get the same
  fingerprint, and when the previous snapshot's fingerprint is \<open>last_hash\<close>, an
  iteration on such a snapshot counts as unchanged: the counter goes up by one.
\<close>

theorem fingerprint_ignores_frame_identifiers:
  assumes "map snd c1 = map snd c2"
  shows "(\<forall>h1 h2. snd (save_frame_html L i1 dir1 c1 dsk1 fs1) = Inr h1
            \<and> snd (save_frame_html L i2 dir2 c2 dsk2 fs2) = Inr h2 \<longrightarrow> h1 = h2)
    \<and> (snd (save_frame_html L i1 dir1 c1 dsk1 fs1) = Inr (last_hash st)
        \<and> snapshot t = c2 \<and> snapshot_ok dir i t
       \<longrightarrow> unchanged_count (snd (loop_body L a dir t i st)) = unchanged_count st + 1)"
proof -
  have "map (\<lambda>entry. encode_utf8 (snd entry)) c1 = map (\<lambda>entry. encode_utf8 (snd entry)) c2"
    using arg_cong [OF assms, of "map encode_utf8"] by (simp add: comp_def)
  then have eq: "content_fingerprint L c1 = content_fingerprint L c2"
    by (simp add: content_fingerprint_def)
  have 1: "h1 = h2"
    if "snd (save_frame_html L i1 dir1 c1 dsk1 fs1) = Inr h1
            \<and> snd (save_frame_html L i2 dir2 c2 dsk2 fs2) = Inr h2" for h1 h2
  proof -
    from that have "h1 = content_fingerprint L c1" and "h2 = content_fingerprint L c2"
      by (auto dest: save_frame_html_Inr)
    then show ?thesis using eq by simp
  qed
  have 2: "unchanged_count (snd (loop_body L a dir t i st)) = unchanged_count st + 1"
    if h: "snd (save_frame_html L i1 dir1 c1 dsk1 fs1) = Inr (last_hash st)
        \<and> snapshot t = c2 \<and> snapshot_ok dir i t"
  proof -
    from h have "last_hash st = content_fingerprint L c1" by (auto dest: save_frame_html_Inr)
    then have l: "content_fingerprint L (snapshot t) = last_hash st" using eq h by simp
    from h have ok: "snapshot_ok dir i t" by simp
    show ?thesis
      by (simp add: loop_body_snapshot_ok [OF ok] l Let_def compare_hash_def issue_def
          split: option.splits)
  qed
  show ?thesis using 1 2 by blast
qed

text \<open>The frame of the still page loses its URL and is keyed by its name instead.\<close>

theorem fingerprint_ignores_frame_identifiers_witness:
  "map snd (snapshot (still_page 1)) = map snd (snapshot renamed_page)
   \<and> map fst (snapshot (still_page 1)) \<noteq> map fst (snapshot renamed_page)
   \<and> unchanged_count (snd (loop_body sample_lib \<lparr>max_pages = 300, stop_unchanged = 3\<rparr>
        ''output/html'' renamed_page 2 after_first)) = unchanged_count after_first + 1"
proof -
  have s1: "snapshot (still_page 1) = whole_markup"
    by (simp add: snapshot_def still_page_def reader_frame_def whole_markup_def frame_key_def)
  have s2: "snapshot renamed_page = [(''frame_main'', ''<p>The End</p>'')]"
    by (simp add: snapshot_def renamed_page_def renamed_frame_def frame_key_def)
  have 1: "map snd whole_markup = map snd (snapshot renamed_page)"
    by (simp add: s2 whole_markup_def)
  have la: "list_all (\<lambda>entry. sound_disk (html_path 1 ''output/html'' (fst entry)) = Stored) whole_markup"
    by (simp add: sound_disk_def whole_markup_def)
  have 2: "snd (save_frame_html sample_lib 1 ''output/html'' whole_markup sound_disk Map.empty)
      = Inr (last_hash after_first)"
    using save_frame_html_stored [OF la, of sample_lib Map.empty] by (simp add: after_first_def)
  have 3: "snapshot_ok ''output/html'' 2 renamed_page"
    by (simp add: snapshot_ok_def snapshot_def renamed_page_def renamed_frame_def sound_disk_def)
  show ?thesis
    using fingerprint_ignores_frame_identifiers [OF 1, of sample_lib 1 "''output/html''" sound_disk
        Map.empty 2 "''output/html''" sound_disk Map.empty after_first renamed_page "''output/html''" 2
        "\<lparr>max_pages = 300, stop_unchanged = 3\<rparr>"] 2 3
    by (simp add: s1 s2 whole_markup_def)
qed

section \<open>The capture loop\<close>

lemma collect_frames_append:
  "collect_frames (xs @ ys) d =
     (case collect_frames xs d of
        (d1, None) \<Rightarrow> collect_frames ys d1
      | (d1, Some e) \<Rightarrow> (d1, Some e))"
proof (induction xs arbitrary: d)
  case Nil
  show ?case by simp
next
  case (Cons f xs)
  show ?case
  proof (cases "frame_content f")
    case (Inl e)
    then show ?thesis using Cons.IH by (cases e) simp_all
  next
    case (Inr html)
    then show ?thesis using Cons.IH by simp
  qed
qed

lemma collect_frames_readable:
  "list_all readable fs
   \<Longrightarrow> snd (collect_frames fs d) = None
     \<and> fst ` set (fst (collect_frames fs d)) = fst ` set d \<union> frame_key ` set fs"
proof (induction fs arbitrary: d)
  case Nil
  show ?case by simp
next
  case (Cons f fs)
  from Cons.prems have rf: "readable f" and r: "list_all readable fs" by simp_all
  from rf obtain html where c: "frame_content f = Inr html"
    by (cases "frame_content f") (simp_all add: readable_def)
  have "fst ` set (AList.update (frame_key f) html d) = insert (frame_key f) (fst ` set d)"
    using AList.dom_update [of "frame_key f" html d] by simp
  then show ?case using Cons.IH [OF r, of "AList.update (frame_key f) html d"] c by auto
qed

text \<open>
  C6. A frame whose content read raises an \<^verbatim>\<open>Exception\<close> is left out of the
  snapshot and nothing else changes: the dictionary built, and the whole iteration, are
  those of the frame list without it. When the other frames can be read, no exception
  leaves the loop over the frames and the snapshot has the keys of exactly those frames.
\<close>

theorem errored_frame_is_skipped:
  assumes "frame_content f = Inl (Exc m)"
  shows "collect_frames (before @ f # after) d = collect_frames (before @ after) d
    \<and> loop_body L a dir (t\<lparr>frames := before @ f # after\<rparr>) i st
        = loop_body L a dir (t\<lparr>frames := before @ after\<rparr>) i st
    \<and> (list_all readable (before @ after)
       \<longrightarrow> snd (collect_frames (before @ f # after) []) = None
         \<and> fst ` set (fst (collect_frames (before @ f # after) [])) = frame_key ` set (before @ after))"
proof -
  have eq: "collect_frames (before @ f # after) d = collect_frames (before @ after) d" for d
    using assms by (simp add: collect_frames_append split: prod.splits option.splits)
  have lb: "loop_body L a dir (t\<lparr>frames := before @ f # after\<rparr>) i st
        = loop_body L a dir (t\<lparr>frames := before @ after\<rparr>) i st"
    by (simp add: loop_body_def eq Let_def
        cong: prod.case_cong option.case_cong sum.case_cong if_cong)
  have rd: "snd (collect_frames (before @ f # after) []) = None
         \<and> fst ` set (fst (collect_frames (before @ f # after) [])) = frame_key ` set (before @ after)"
    if "list_all readable (before @ after)"
    using collect_frames_readable [OF that, of "[]"] by (simp add: eq)
  show ?thesis using eq lb rd by blast
qed

text \<open>A detached advertisement frame between two frames that can be read.\<close>

theorem errored_frame_is_skipped_witness:
  "collect_frames [reader_frame, detached_frame, footer_frame] []
     = collect_frames [reader_frame, footer_frame] []
   \<and> snd (collect_frames [reader_frame, detached_frame, footer_frame] []) = None
   \<and> loop_body sample_lib \<lparr>max_pages = 300, stop_unchanged = 3\<rparr> ''output/html''
        (renamed_page\<lparr>frames := [reader_frame, detached_frame, footer_frame]\<rparr>) 1 (start Map.empty)
     = loop_body sample_lib \<lparr>max_pages = 300, stop_unchanged = 3\<rparr> ''output/html''
        (renamed_page\<lparr>frames := [reader_frame, footer_frame]\<rparr>) 1 (start Map.empty)"
proof -
  have 1: "frame_content detached_frame = Inl (Exc ''Error'')"
    by (simp add: detached_frame_def)
  have 2: "list_all readable ([reader_frame] @ [footer_frame])"
    by (simp add: readable_def reader_frame_def footer_frame_def)
  show ?thesis
    using errored_frame_is_skipped [OF 1, of "[reader_frame]" "[footer_frame]" "[]" sample_lib
        "\<lparr>max_pages = 300, stop_unchanged = 3\<rparr>" "''output/html''" renamed_page 1 "start Map.empty"] 2
    by (auto simp del: collect_frames.simps)
qed

lemma capture_loop_iterations_bound:
  "iterations (snd (capture_loop L a dir env idxs st)) \<le> iterations st + length idxs"
proof (induction idxs arbitrary: st)
  case Nil
  show ?case by simp
next
  case (Cons i idxs)
  obtain r st1 where b: "loop_body L a dir (env i) i st = (r, st1)"
    by (cases "loop_body L a dir (env i) i st")
  have it: "iterations st1 = Suc (iterations st)"
    using loop_body_iterations [of L a dir "env i" i st] b by simp
  show ?case
  proof (cases r)
    case Continue
    then show ?thesis using b it Cons.IH [of st1] by simp
  qed (use b it in simp_all)
qed

lemma capture_loop_page_turns_mono:
  "page_turns st \<le> page_turns (snd (capture_loop L a dir env idxs st))"
proof (induction idxs arbitrary: st)
  case Nil
  show ?case by simp
next
  case (Cons i idxs)
  obtain r st1 where b: "loop_body L a dir (env i) i st = (r, st1)"
    by (cases "loop_body L a dir (env i) i st")
  have pt: "page_turns st \<le> page_turns st1"
    using loop_body_page_turns_mono [of st L a dir "env i" i] b by simp
  show ?case
  proof (cases r)
    case Continue
    then show ?thesis using b pt Cons.IH [of st1] by simp
  qed (use b pt in simp_all)
qed

lemma fingerprint_at_Suc:
  "fingerprint_at L env (Suc n) = content_fingerprint L (snapshot (env (int (Suc n))))"
  by (simp add: fingerprint_at_def)

lemma compare_hash_tracks_streak:
  assumes "unchanged_count st = int (streak h n)" and "last_hash st = h n"
  shows "unchanged_count (compare_hash (h (Suc n)) st) = int (streak h (Suc n))
       \<and> last_hash (compare_hash (h (Suc n)) st) = h (Suc n)"
  using assms by (simp add: compare_hash_def)

lemma page_turns_issue:
  "page_turns (issue c st) = (if c = Press ''ArrowRight'' then Suc (page_turns st) else page_turns st)"
  by (simp add: page_turns_def issue_def)

lemma iterations_issue:
  "iterations (issue c st) = (if c = Read_frames then Suc (iterations st) else iterations st)"
  by (simp add: iterations_def issue_def)

lemma page_turns_compare_hash: "page_turns (compare_hash h st) = page_turns st"
  by (simp add: page_turns_def compare_hash_def)

lemma page_turns_html_files: "page_turns (st\<lparr>html_files := fs\<rparr>) = page_turns st"
  by (simp add: page_turns_def)

lemma unchanged_count_issue: "unchanged_count (issue c st) = unchanged_count st"
  by (simp add: issue_def)

lemma last_hash_issue: "last_hash (issue c st) = last_hash st"
  by (simp add: issue_def)

lemma loop_body_streak:
  assumes ok: "snapshot_ok dir p t"
    and hn: "content_fingerprint L (snapshot t) = h (Suc n)"
    and c: "unchanged_count st = int (streak h n)"
    and l: "last_hash st = h n"
  obtains st1 where
    "unchanged_count st1 = int (streak h (Suc n))"
    "last_hash st1 = h (Suc n)"
    "iterations st1 = Suc (iterations st)"
    "stop_unchanged a \<le> int (streak h (Suc n)) \<Longrightarrow>
       loop_body L a dir t p st = (Break, st1) \<and> page_turns st1 = page_turns st"
    "\<not> stop_unchanged a \<le> int (streak h (Suc n)) \<Longrightarrow> turn_ok t \<Longrightarrow>
       loop_body L a dir t p st = (Continue, st1) \<and> page_turns st1 = Suc (page_turns st)"
proof -
  let ?fs = "fst (save_frame_html L p dir (snapshot t) (html_disk t) (html_files st))"
  let ?s0 = "issue Read_frames st\<lparr>html_files := ?fs\<rparr>"
  let ?s1 = "compare_hash (h (Suc n)) ?s0"
  let ?st1 = "snd (loop_body L a dir t p st)"
  have c0: "unchanged_count ?s0 = int (streak h n)"
    and l0: "last_hash ?s0 = h n"
    using c l by (simp_all add: issue_def)
  note tr = compare_hash_tracks_streak [OF c0 l0]
  note lb = loop_body_snapshot_ok [OF ok, of L a st, unfolded hn]
  have p1: "page_turns ?s1 = page_turns st"
    by (simp add: page_turns_compare_hash page_turns_html_files page_turns_issue)
  have u: "unchanged_count ?st1 = int (streak h (Suc n))"
    using tr by (simp del: streak.simps add: lb Let_def unchanged_count_issue split: option.splits)
  have la: "last_hash ?st1 = h (Suc n)"
    using tr by (simp del: streak.simps add: lb Let_def last_hash_issue split: option.splits)
  have it: "iterations ?st1 = Suc (iterations st)"
    by (rule loop_body_iterations)
  have br: "loop_body L a dir t p st = (Break, ?st1) \<and> page_turns ?st1 = page_turns st"
    if "stop_unchanged a \<le> int (streak h (Suc n))"
    using that tr p1 by (simp del: streak.simps add: lb Let_def page_turns_issue)
  have co: "loop_body L a dir t p st = (Continue, ?st1) \<and> page_turns ?st1 = Suc (page_turns st)"
    if "\<not> stop_unchanged a \<le> int (streak h (Suc n))" "turn_ok t"
    using that tr p1 by (simp del: streak.simps add: lb Let_def page_turns_issue turn_ok_def)
  show ?thesis using that [of ?st1] u la it br co by blast
qed

lemma upto_step: "int n + 1 \<le> m \<Longrightarrow> [int n + 1..m] = int (Suc n) # [int (Suc n) + 1..m]"
  by (simp add: upto_rec1 add.commute)

lemma capture_loop_stops:
  assumes "n < i" and "int i \<le> m"
    and "\<forall>j. n < j \<and> j \<le> i \<longrightarrow> snapshot_ok dir (int j) (env (int j))"
    and "\<forall>j. n < j \<and> j < i \<longrightarrow> turn_ok (env (int j))
            \<and> int (streak (fingerprint_at L env) j) < stop_unchanged a"
    and "stop_unchanged a \<le> int (streak (fingerprint_at L env) i)"
    and "unchanged_count st = int (streak (fingerprint_at L env) n)"
    and "last_hash st = fingerprint_at L env n"
  shows "fst (capture_loop L a dir env [int n + 1..m] st) = Stopped
    \<and> iterations (snd (capture_loop L a dir env [int n + 1..m] st)) = iterations st + (i - n)
    \<and> Suc (page_turns (snd (capture_loop L a dir env [int n + 1..m] st))) = page_turns st + (i - n)"
  using assms
proof (induction "i - n" arbitrary: n st)
  case 0
  then show ?case by simp
next
  case (Suc d)
  have le: "int n + 1 \<le> m" using Suc.prems(1,2) by linarith
  have ok: "snapshot_ok dir (int (Suc n)) (env (int (Suc n)))"
    using Suc.prems(1) Suc.prems(3) [rule_format, of "Suc n"] by (simp del: of_nat_Suc)
  from loop_body_streak [OF ok fingerprint_at_Suc [symmetric] Suc.prems(6,7), of a]
  obtain st1 where st1:
    "unchanged_count st1 = int (streak (fingerprint_at L env) (Suc n))"
    "last_hash st1 = fingerprint_at L env (Suc n)"
    "iterations st1 = Suc (iterations st)"
    "stop_unchanged a \<le> int (streak (fingerprint_at L env) (Suc n)) \<Longrightarrow>
       loop_body L a dir (env (int (Suc n))) (int (Suc n)) st = (Break, st1) \<and> page_turns st1 = page_turns st"
    "\<not> stop_unchanged a \<le> int (streak (fingerprint_at L env) (Suc n)) \<Longrightarrow> turn_ok (env (int (Suc n))) \<Longrightarrow>
       loop_body L a dir (env (int (Suc n))) (int (Suc n)) st = (Continue, st1) \<and> page_turns st1 = Suc (page_turns st)"
    by blast
  show ?case
  proof (cases "Suc n = i")
    case True
    then have "loop_body L a dir (env (int (Suc n))) (int (Suc n)) st = (Break, st1)"
      and "page_turns st1 = page_turns st"
      using st1(4) Suc.prems(5) by simp_all
    then show ?thesis using st1(3) True [symmetric] by (simp add: upto_step [OF le])
  next
    case False
    then have lt: "Suc n < i" using Suc.prems(1) by simp
    then have "turn_ok (env (int (Suc n)))"
      and "\<not> stop_unchanged a \<le> int (streak (fingerprint_at L env) (Suc n))"
      using Suc.prems(4) [rule_format, of "Suc n"] by (simp_all del: of_nat_Suc add: not_le)
    then have b: "loop_body L a dir (env (int (Suc n))) (int (Suc n)) st = (Continue, st1)"
      and pt: "page_turns st1 = Suc (page_turns st)"
      using st1(5) by simp_all
    have d: "d = i - Suc n" using Suc.hyps(2) by simp
    have a3: "\<forall>j. Suc n < j \<and> j \<le> i \<longrightarrow> snapshot_ok dir (int j) (env (int j))"
      using Suc.prems(3) by simp
    have a4: "\<forall>j. Suc n < j \<and> j < i \<longrightarrow> turn_ok (env (int j))
            \<and> int (streak (fingerprint_at L env) j) < stop_unchanged a"
      using Suc.prems(4) by simp
    from Suc.hyps(1) [OF d lt Suc.prems(2) a3 a4 Suc.prems(5) st1(1,2)]
    show ?thesis using b pt st1(3) lt by (simp add: upto_step [OF le]) linarith
  qed
qed

lemma capture_loop_exhausts:
  assumes "\<forall>j. n < j \<and> int j \<le> m \<longrightarrow> snapshot_ok dir (int j) (env (int j)) \<and> turn_ok (env (int j))
            \<and> int (streak (fingerprint_at L env) j) < stop_unchanged a"
    and "unchanged_count st = int (streak (fingerprint_at L env) n)"
    and "last_hash st = fingerprint_at L env n"
  shows "fst (capture_loop L a dir env [int n + 1..m] st) = Exhausted
    \<and> iterations (snd (capture_loop L a dir env [int n + 1..m] st)) = iterations st + nat (m - int n)
    \<and> page_turns (snd (capture_loop L a dir env [int n + 1..m] st)) = page_turns st + nat (m - int n)"
  using assms
proof (induction "nat (m - int n)" arbitrary: n st)
  case 0
  then have "[int n + 1..m] = []" by simp
  then show ?case using 0 by simp
next
  case (Suc d)
  have le: "int n + 1 \<le> m" using Suc.hyps(2) by linarith
  have h: "snapshot_ok dir (int (Suc n)) (env (int (Suc n)))" "turn_ok (env (int (Suc n)))"
    "\<not> stop_unchanged a \<le> int (streak (fingerprint_at L env) (Suc n))"
    using le Suc.prems(1) [rule_format, of "Suc n"] by (simp_all del: of_nat_Suc add: not_le)
  from loop_body_streak [OF h(1) fingerprint_at_Suc [symmetric] Suc.prems(2,3), of a]
  obtain st1 where st1:
    "unchanged_count st1 = int (streak (fingerprint_at L env) (Suc n))"
    "last_hash st1 = fingerprint_at L env (Suc n)"
    "iterations st1 = Suc (iterations st)"
    "\<not> stop_unchanged a \<le> int (streak (fingerprint_at L env) (Suc n)) \<Longrightarrow> turn_ok (env (int (Suc n))) \<Longrightarrow>
       loop_body L a dir (env (int (Suc n))) (int (Suc n)) st = (Continue, st1) \<and> page_turns st1 = Suc (page_turns st)"
    by blast
  have b: "loop_body L a dir (env (int (Suc n))) (int (Suc n)) st = (Continue, st1)"
    and pt: "page_turns st1 = Suc (page_turns st)"
    using st1(4) h by simp_all
  have d: "d = nat (m - int (Suc n))" using Suc.hyps(2) by simp
  have a1: "\<forall>j. Suc n < j \<and> int j \<le> m \<longrightarrow> snapshot_ok dir (int j) (env (int j)) \<and> turn_ok (env (int j))
            \<and> int (streak (fingerprint_at L env) j) < stop_unchanged a"
    using Suc.prems(1) by simp
  from Suc.hyps(1) [OF d a1 st1(1,2)]
  show ?case using b pt st1(3) le by (simp add: upto_step [OF le])
qed

lemma start_fields:
  "unchanged_count (start fs) = int (streak (fingerprint_at L env) 0)"
  "last_hash (start fs) = fingerprint_at L env 0"
  "iterations (start fs) = 0" "page_turns (start fs) = 0"
  by (simp_all add: start_def fingerprint_at_def iterations_def page_turns_def)

lemma streak_Suc_le: "streak h (Suc n) \<le> Suc (streak h n)"
  by simp

lemma streak_first: "streak (fingerprint_at L env) (Suc 0) = 0"
  using content_fingerprint_not_empty [of L "snapshot (env 1)"]
  by (simp add: fingerprint_at_def)

lemma capture_pages_stops:
  assumes "1 \<le> i" and "int i \<le> max_pages a"
    and "\<forall>j\<in>{1..i}. snapshot_ok dir (int j) (env (int j))"
    and "\<forall>j\<in>{1..<i}. turn_ok (env (int j))
           \<and> int (streak (fingerprint_at L env) j) < stop_unchanged a"
    and "stop_unchanged a \<le> int (streak (fingerprint_at L env) i)"
  shows "fst (capture_pages L a dir env fs) = Stopped
    \<and> iterations (snd (capture_pages L a dir env fs)) = i
    \<and> page_turns (snd (capture_pages L a dir env fs)) = i - 1"
proof -
  have 1: "0 < i" using assms(1) by simp
  have 3: "\<forall>j. 0 < j \<and> j \<le> i \<longrightarrow> snapshot_ok dir (int j) (env (int j))"
    using assms(3) by simp
  have 4: "\<forall>j. 0 < j \<and> j < i \<longrightarrow> turn_ok (env (int j))
            \<and> int (streak (fingerprint_at L env) j) < stop_unchanged a"
    using assms(4) by simp
  from capture_loop_stops [OF 1 assms(2) 3 4 assms(5) start_fields(1,2), of fs]
  show ?thesis by (auto simp: capture_pages_def start_fields)
qed

lemma streak_at_stop:
  assumes "1 \<le> i"
    and "\<forall>j\<in>{1..<i}. int (streak (fingerprint_at L env) j) < k"
    and "k \<le> int (streak (fingerprint_at L env) i)" and "0 \<le> k"
  shows "int (streak (fingerprint_at L env) i) = k"
proof (cases i)
  case 0
  then show ?thesis using assms(1) by simp
next
  case (Suc n)
  show ?thesis
  proof (cases n)
    case 0
    then have "streak (fingerprint_at L env) i = 0" using Suc streak_first by simp
    then show ?thesis using assms(3,4) by simp
  next
    case (Suc n')
    then have "n \<in> {1..<i}" using \<open>i = Suc n\<close> by simp
    then have "int (streak (fingerprint_at L env) n) < k" using assms(2) by blast
    moreover have "streak (fingerprint_at L env) i \<le> Suc (streak (fingerprint_at L env) n)"
      unfolding \<open>i = Suc n\<close> by (rule streak_Suc_le)
    ultimately show ?thesis using assms(3) by linarith
  qed
qed

lemma streak_zero_of_change: "h (Suc n) \<noteq> h n \<Longrightarrow> streak h (Suc n) = 0"
  by simp

lemma first_loop_body:
  assumes "last_hash st = []" and "1 \<le> stop_unchanged a"
  shows "fst (loop_body L a dir t i st) \<noteq> Break
    \<and> (fst (loop_body L a dir t i st) = Continue
        \<longrightarrow> page_turns (snd (loop_body L a dir t i st)) = Suc (page_turns st))"
proof -
  obtain c e where c: "collect_frames (frames t) [] = (c, e)"
    by (cases "collect_frames (frames t) []")
  obtain fs r where s: "save_frame_html L i dir c (html_disk t) (html_files (issue Read_frames st)) = (fs, r)"
    by (cases "save_frame_html L i dir c (html_disk t) (html_files (issue Read_frames st))")
  show ?thesis
  proof (cases e)
    case (Some x)
    then show ?thesis using c by (simp add: loop_body_def Let_def)
  next
    case None
    show ?thesis
    proof (cases r)
      case (Inl x)
      then show ?thesis using c s None by (simp add: loop_body_def Let_def)
    next
      case (Inr h)
      then have "h = content_fingerprint L c"
        using save_frame_html_Inr [of L i dir c "html_disk t" "html_files (issue Read_frames st)" h] s
        by simp
      then have "h \<noteq> []" by (simp add: content_fingerprint_not_empty)
      then have u: "unchanged_count (compare_hash h (issue Read_frames st\<lparr>html_files := fs\<rparr>)) = 0"
        using assms(1) by (simp add: compare_hash_def issue_def)
      show ?thesis
        using c s None Inr u assms(2)
        by (simp add: loop_body_def Let_def page_turns_issue page_turns_compare_hash
            page_turns_html_files split: option.splits)
    qed
  qed
qed

lemma still_page_ok: "snapshot_ok dir i (still_page k)" "turn_ok (still_page k)"
  by (simp_all add: snapshot_ok_def snapshot_def still_page_def reader_frame_def sound_disk_def
      turn_ok_def)

lemma still_page_streak:
  "streak (fingerprint_at L still_page) (Suc 0) = 0"
  "streak (fingerprint_at L still_page) (Suc (Suc 0)) = 1"
  "streak (fingerprint_at L still_page) (Suc (Suc (Suc 0))) = 2"
proof -
  show 1: "streak (fingerprint_at L still_page) (Suc 0) = 0" by (rule streak_first)
  have e: "fingerprint_at L still_page (Suc (Suc 0)) = fingerprint_at L still_page (Suc 0)"
    "fingerprint_at L still_page (Suc (Suc (Suc 0))) = fingerprint_at L still_page (Suc (Suc 0))"
    by (simp_all add: fingerprint_at_def still_page_def)
  show 2: "streak (fingerprint_at L still_page) (Suc (Suc 0)) = 1"
    using 1 e(1) by (simp del: streak.simps add: streak.simps(2) [of _ "Suc 0"])
  show "streak (fingerprint_at L still_page) (Suc (Suc (Suc 0))) = 2"
    using 2 e(2) by (simp del: streak.simps add: streak.simps(2) [of _ "Suc (Suc 0)"])
qed

lemma still_page_streak_below:
  assumes "j \<in> {1..<3}"
  shows "int (streak (fingerprint_at L still_page) j) < 2"
proof -
  from assms consider "j = Suc 0" | "j = Suc (Suc 0)" by force
  then show ?thesis
    by cases (simp_all del: streak.simps add: still_page_streak)
qed

lemma still_page_stops:
  "fst (capture_pages sample_lib \<lparr>max_pages = 300, stop_unchanged = 2\<rparr> ''output/html''
          still_page Map.empty) = Stopped"
proof -
  have 3: "\<forall>j\<in>{1..3}. snapshot_ok ''output/html'' (int j) (still_page (int j))"
    by (simp add: still_page_ok)
  have 4: "\<forall>j\<in>{1..<3}. turn_ok (still_page (int j))
      \<and> int (streak (fingerprint_at sample_lib still_page) j)
          < stop_unchanged \<lparr>max_pages = 300, stop_unchanged = 2\<rparr>"
    using still_page_streak_below [of _ sample_lib] by (simp add: still_page_ok)
  have 5: "stop_unchanged \<lparr>max_pages = 300, stop_unchanged = 2\<rparr>
      \<le> int (streak (fingerprint_at sample_lib still_page) 3)"
    using still_page_streak(3) [of sample_lib] by (simp del: streak.simps add: eval_nat_numeral)
  show ?thesis
    using capture_pages_stops [of 3 "\<lparr>max_pages = 300, stop_unchanged = 2\<rparr>" "''output/html''"
        still_page sample_lib Map.empty] 3 4 5
    by simp
qed

lemma turning_page_differs:
  "fingerprint_at sample_lib turning_page 2 \<noteq> fingerprint_at sample_lib turning_page 1"
  by code_simp

text \<open>
  C3. For every configuration and every environment the loop ends, after at most
  \<open>max_pages\<close> iterations. When every snapshot's fingerprint differs from the previous
  one, no call fails and the threshold is at least 1, it ends after exactly \<open>max_pages\<close>
  iterations, by exhausting the page indexes.
\<close>

theorem at_most_max_pages_iterations:
  "iterations (snd (capture_pages L a dir env fs)) \<le> nat (max_pages a)
   \<and> (1 \<le> stop_unchanged a
       \<and> (\<forall>j\<in>{1..nat (max_pages a)}. snapshot_ok dir (int j) (env (int j)) \<and> turn_ok (env (int j))
             \<and> fingerprint_at L env j \<noteq> fingerprint_at L env (j - 1))
      \<longrightarrow> fst (capture_pages L a dir env fs) = Exhausted
          \<and> iterations (snd (capture_pages L a dir env fs)) = nat (max_pages a))"
proof (intro conjI)
  show "iterations (snd (capture_pages L a dir env fs)) \<le> nat (max_pages a)"
    using capture_loop_iterations_bound [of L a dir env "[1..max_pages a]" "start fs"]
    by (simp add: capture_pages_def start_fields)
next
  have "fst (capture_pages L a dir env fs) = Exhausted
          \<and> iterations (snd (capture_pages L a dir env fs)) = nat (max_pages a)"
    if h: "1 \<le> stop_unchanged a
       \<and> (\<forall>j\<in>{1..nat (max_pages a)}. snapshot_ok dir (int j) (env (int j)) \<and> turn_ok (env (int j))
             \<and> fingerprint_at L env j \<noteq> fingerprint_at L env (j - 1))"
  proof -
  have "\<forall>j. 0 < j \<and> int j \<le> max_pages a \<longrightarrow> snapshot_ok dir (int j) (env (int j)) \<and> turn_ok (env (int j))
            \<and> int (streak (fingerprint_at L env) j) < stop_unchanged a"
  proof (intro allI impI)
    fix j assume j: "0 < j \<and> int j \<le> max_pages a"
    then have "j \<in> {1..nat (max_pages a)}" by auto
    with h have ok: "snapshot_ok dir (int j) (env (int j))" "turn_ok (env (int j))"
      and ne: "fingerprint_at L env j \<noteq> fingerprint_at L env (j - 1)" by blast+
    obtain n where n: "j = Suc n" using j by (cases j) auto
    have "streak (fingerprint_at L env) j = 0"
      using ne unfolding n by simp
    then show "snapshot_ok dir (int j) (env (int j)) \<and> turn_ok (env (int j))
            \<and> int (streak (fingerprint_at L env) j) < stop_unchanged a"
      using ok h by simp
  qed
  from capture_loop_exhausts [OF this start_fields(1,2), of fs]
  show ?thesis
    by (simp add: capture_pages_def start_fields)
  qed
  then show "1 \<le> stop_unchanged a
       \<and> (\<forall>j\<in>{1..nat (max_pages a)}. snapshot_ok dir (int j) (env (int j)) \<and> turn_ok (env (int j))
             \<and> fingerprint_at L env j \<noteq> fingerprint_at L env (j - 1))
      \<longrightarrow> fst (capture_pages L a dir env fs) = Exhausted
          \<and> iterations (snd (capture_pages L a dir env fs)) = nat (max_pages a)"
    by blast
qed

text \<open>Two pages that differ, under \<open>max_pages = 2\<close>.\<close>

theorem at_most_max_pages_iterations_witness:
  "fst (capture_pages sample_lib \<lparr>max_pages = 2, stop_unchanged = 3\<rparr> ''output/html''
          turning_page Map.empty) = Exhausted
   \<and> iterations (snd (capture_pages sample_lib \<lparr>max_pages = 2, stop_unchanged = 3\<rparr>
          ''output/html'' turning_page Map.empty)) = 2"
proof -
  have ok: "snapshot_ok ''output/html'' (int j) (turning_page (int j)) \<and> turn_ok (turning_page (int j))"
    for j
    by (simp add: snapshot_ok_def snapshot_def turning_page_def sound_disk_def turn_ok_def)
  have d1: "fingerprint_at sample_lib turning_page 1 \<noteq> fingerprint_at sample_lib turning_page (1 - 1)"
    by (simp add: fingerprint_at_def content_fingerprint_not_empty)
  have d2: "fingerprint_at sample_lib turning_page 2 \<noteq> fingerprint_at sample_lib turning_page (2 - 1)"
    using turning_page_differs by simp
  have "j = 1 \<or> j = 2" if "j \<in> {1..nat (max_pages \<lparr>max_pages = 2, stop_unchanged = 3\<rparr>)}" for j :: nat
    using that by auto
  then have h: "\<forall>j\<in>{1..nat (max_pages \<lparr>max_pages = 2, stop_unchanged = 3\<rparr>)}.
      snapshot_ok ''output/html'' (int j) (turning_page (int j)) \<and> turn_ok (turning_page (int j))
      \<and> fingerprint_at sample_lib turning_page j \<noteq> fingerprint_at sample_lib turning_page (j - 1)"
    using ok d1 d2 by blast
  show ?thesis
    using at_most_max_pages_iterations [of sample_lib "\<lparr>max_pages = 2, stop_unchanged = 3\<rparr>"
        "''output/html''" turning_page Map.empty] h
    by simp
qed

text \<open>
  C2. Let the \<open>i\<close>-th snapshot be the first at which the count of consecutive
  snapshots whose fingerprint equals the previous one reaches \<open>stop_unchanged\<close>, with
  \<open>i\<close> within \<open>max_pages\<close> and no call failing before the stop. Then the loop stops at
  that snapshot, not before and not later: it runs exactly \<open>i\<close> iterations and issues
  exactly \<open>i - 1\<close> page turns; and for a threshold that is not negative the count
  then equals \<open>stop_unchanged\<close> exactly.
\<close>

theorem stops_after_stop_unchanged_repeats:
  assumes "1 \<le> i" and "int i \<le> max_pages a"
    and "\<forall>j\<in>{1..i}. snapshot_ok dir (int j) (env (int j))"
    and "\<forall>j\<in>{1..<i}. turn_ok (env (int j))
           \<and> int (streak (fingerprint_at L env) j) < stop_unchanged a"
    and "stop_unchanged a \<le> int (streak (fingerprint_at L env) i)"
  shows "fst (capture_pages L a dir env fs) = Stopped
    \<and> iterations (snd (capture_pages L a dir env fs)) = i
    \<and> page_turns (snd (capture_pages L a dir env fs)) = i - 1
    \<and> (0 \<le> stop_unchanged a \<longrightarrow> int (streak (fingerprint_at L env) i) = stop_unchanged a)"
proof -
  have "0 \<le> stop_unchanged a \<longrightarrow> int (streak (fingerprint_at L env) i) = stop_unchanged a"
    using streak_at_stop [OF assms(1) _ assms(5)] assms(4) by blast
  then show ?thesis using capture_pages_stops [OF assms, of fs] by blast
qed

text \<open>
  Three snapshots with the same fingerprint under \<open>stop_unchanged = 2\<close>: the loop stops at
  the third, having issued two page turns.
\<close>

theorem stops_after_stop_unchanged_repeats_witness:
  "fst (capture_pages sample_lib \<lparr>max_pages = 300, stop_unchanged = 2\<rparr> ''output/html''
          still_page Map.empty) = Stopped
   \<and> iterations (snd (capture_pages sample_lib \<lparr>max_pages = 300, stop_unchanged = 2\<rparr>
          ''output/html'' still_page Map.empty)) = 3
   \<and> page_turns (snd (capture_pages sample_lib \<lparr>max_pages = 300, stop_unchanged = 2\<rparr>
          ''output/html'' still_page Map.empty)) = 2"
proof -
  have 3: "\<forall>j\<in>{1..3}. snapshot_ok ''output/html'' (int j) (still_page (int j))"
    by (simp add: still_page_ok)
  have 4: "\<forall>j\<in>{1..<3}. turn_ok (still_page (int j))
      \<and> int (streak (fingerprint_at sample_lib still_page) j)
          < stop_unchanged \<lparr>max_pages = 300, stop_unchanged = 2\<rparr>"
    using still_page_streak_below [of _ sample_lib] by (simp add: still_page_ok)
  have 5: "stop_unchanged \<lparr>max_pages = 300, stop_unchanged = 2\<rparr>
      \<le> int (streak (fingerprint_at sample_lib still_page) 3)"
    using still_page_streak(3) [of sample_lib] by (simp del: streak.simps add: eval_nat_numeral)
  show ?thesis
    using stops_after_stop_unchanged_repeats [of 3 "\<lparr>max_pages = 300, stop_unchanged = 2\<rparr>"
        "''output/html''" still_page sample_lib Map.empty] 3 4 5
    by simp
qed

text \<open>
  C4 fails as stated: with \<open>stop_unchanged = 0\<close> the loop stops in its first iteration,
  before any page turn.
\<close>

theorem zero_threshold_stops_before_any_page_turn:
  "fst (capture_pages sample_lib \<lparr>max_pages = 300, stop_unchanged = 0\<rparr> ''output/html''
          still_page Map.empty) = Stopped
   \<and> page_turns (snd (capture_pages sample_lib \<lparr>max_pages = 300, stop_unchanged = 0\<rparr>
          ''output/html'' still_page Map.empty)) = 0"
proof -
  have 3: "\<forall>j\<in>{1..1}. snapshot_ok ''output/html'' (int j) (still_page (int j))"
    by (simp add: still_page_ok)
  have 4: "\<forall>j\<in>{1..<1}. turn_ok (still_page (int j))
      \<and> int (streak (fingerprint_at sample_lib still_page) j)
          < stop_unchanged \<lparr>max_pages = 300, stop_unchanged = 0\<rparr>"
    by simp
  show ?thesis
    using capture_pages_stops [of 1 "\<lparr>max_pages = 300, stop_unchanged = 0\<rparr>" "''output/html''"
        still_page sample_lib Map.empty] 3 4
    by simp
qed

text \<open>
  C4 (amended). A fingerprint that \<open>save_frame_html\<close> returns is never the empty-string
  sentinel that \<open>last_hash\<close> starts with, so the first snapshot never counts as
  unchanged; and for every configuration with \<open>stop_unchanged\<close> at least 1, a loop that
  ends by the stop decision has issued at least one page turn.
\<close>

theorem page_turn_before_stop:
  "(snd (save_frame_html L i dir c dsk fs0) = Inr h \<longrightarrow> h \<noteq> last_hash (start fs))
   \<and> (1 \<le> stop_unchanged a \<and> fst (capture_pages L a dir env fs) = Stopped
      \<longrightarrow> 1 \<le> page_turns (snd (capture_pages L a dir env fs)))"
proof (intro conjI impI)
  assume "snd (save_frame_html L i dir c dsk fs0) = Inr h"
  then have "h = content_fingerprint L c" by (rule save_frame_html_Inr)
  then show "h \<noteq> last_hash (start fs)"
    by (simp add: start_def content_fingerprint_not_empty)
next
  assume h: "1 \<le> stop_unchanged a \<and> fst (capture_pages L a dir env fs) = Stopped"
  show "1 \<le> page_turns (snd (capture_pages L a dir env fs))"
  proof (cases "1 \<le> max_pages a")
    case False
    then have "[1..max_pages a] = []" by simp
    then show ?thesis using h by (simp add: capture_pages_def)
  next
    case True
    then have u: "[1..max_pages a] = 1 # [2..max_pages a]" by (simp add: upto_rec1)
    obtain r st1 where b: "loop_body L a dir (env 1) 1 (start fs) = (r, st1)"
      by (cases "loop_body L a dir (env 1) 1 (start fs)")
    have l: "last_hash (start fs) = []" by (simp add: start_def)
    from first_loop_body [OF l, of a L dir "env 1" 1] h b
    have nb: "r \<noteq> Break" and co: "r = Continue \<longrightarrow> page_turns st1 = Suc (page_turns (start fs))"
      by simp_all
    show ?thesis
    proof (cases r)
      case Continue
      then have "1 \<le> page_turns st1" using co by simp
      also have "\<dots> \<le> page_turns (snd (capture_loop L a dir env [2..max_pages a] st1))"
        by (rule capture_loop_page_turns_mono)
      finally show ?thesis using u b Continue by (simp add: capture_pages_def)
    next
      case Break
      then show ?thesis using nb by simp
    next
      case (Raise e)
      then show ?thesis using h u b by (simp add: capture_pages_def)
    qed
  qed
qed

text \<open>The still page under \<open>stop_unchanged = 2\<close>.\<close>

theorem page_turn_before_stop_witness:
  "1 \<le> stop_unchanged \<lparr>max_pages = 300, stop_unchanged = 2\<rparr>
   \<and> fst (capture_pages sample_lib \<lparr>max_pages = 300, stop_unchanged = 2\<rparr> ''output/html''
          still_page Map.empty) = Stopped
   \<and> 1 \<le> page_turns (snd (capture_pages sample_lib \<lparr>max_pages = 300, stop_unchanged = 2\<rparr>
          ''output/html'' still_page Map.empty))"
  using page_turn_before_stop [of sample_lib 1 "''output/html''" "[]" sound_disk Map.empty "[]"
      Map.empty "\<lparr>max_pages = 300, stop_unchanged = 2\<rparr>" still_page] still_page_stops
  by simp

end
